theory Spec2Isabelle
  imports Main
begin

section \<open>Python values\<close>

text \<open>
  The values a context can hold: the data that \<open>json.load\<close> produces, without floats.
  A dictionary is an association list in insertion order, the order in which
  \<open>dict.items()\<close> yields it. A character is a code point below 256.
\<close>

datatype pyval =
    PNone
  | PBool bool
  | PInt int
  | PStr string
  | PList "pyval list"
  | PDict "(pyval \<times> pyval) list"

datatype py_error = KeyError | IndexError | TypeError | AttributeError

type_synonym ctx = "(string \<times> pyval) list"

subsection \<open>\<open>str\<close> and \<open>repr\<close>\<close>

definition digit_char :: "nat \<Rightarrow> char" where
  "digit_char n = char_of (48 + n)"

function str_nat :: "nat \<Rightarrow> string" where
  "str_nat n = (if n < 10 then [digit_char n] else str_nat (n div 10) @ [digit_char (n mod 10)])"
  by pat_completeness auto
termination
  by (relation "measure id") auto

declare str_nat.simps [simp del]

definition str_int :: "int \<Rightarrow> string" where
  "str_int i = (if i < 0 then CHR ''-'' # str_nat (nat (- i)) else str_nat (nat i))"

definition hex_char :: "nat \<Rightarrow> char" where
  "hex_char n = (if n < 10 then char_of (48 + n) else char_of (87 + n))"

text \<open>
  \<open>repr\<close> of a string: double quotes only when the text has a single quote and no double
  quote; the quote, the backslash, tab, newline and return are escaped; the other
  control characters and the unprintable code points below 256 are written \<open>\xNN\<close>.
\<close>

definition repr_char :: "char \<Rightarrow> char \<Rightarrow> string" where
  "repr_char q c =
     (let n = (of_char c :: nat) in
      if c = q \<or> n = 92 then [char_of (92::nat), c]
      else if n = 9 then [char_of (92::nat), CHR ''t'']
      else if n = 10 then [char_of (92::nat), CHR ''n'']
      else if n = 13 then [char_of (92::nat), CHR ''r'']
      else if n < 32 \<or> n = 127 \<or> (128 \<le> n \<and> n \<le> 160) \<or> n = 173
        then [char_of (92::nat), CHR ''x'', hex_char (n div 16), hex_char (n mod 16)]
      else [c])"

definition repr_str :: "string \<Rightarrow> string" where
  "repr_str s =
     (let q = (if char_of (39::nat) \<in> set s \<and> char_of (34::nat) \<notin> set s
               then char_of (34::nat) else char_of (39::nat))
      in q # concat (map (repr_char q) s) @ [q])"

fun join :: "string \<Rightarrow> string list \<Rightarrow> string" where
  "join sep [] = []"
| "join sep [x] = x"
| "join sep (x # y # ys) = x @ sep @ join sep (y # ys)"

fun py_repr :: "pyval \<Rightarrow> string" where
  "py_repr PNone = ''None''"
| "py_repr (PBool b) = (if b then ''True'' else ''False'')"
| "py_repr (PInt i) = str_int i"
| "py_repr (PStr s) = repr_str s"
| "py_repr (PList xs) = ''['' @ join '', '' (map py_repr xs) @ '']''"
| "py_repr (PDict kvs) =
     ''{'' @ join '', '' (map (\<lambda>kv. py_repr (fst kv) @ '': '' @ py_repr (snd kv)) kvs) @ ''}''"

definition py_str :: "pyval \<Rightarrow> string" where
  "py_str v = (case v of PStr s \<Rightarrow> s | _ \<Rightarrow> py_repr v)"

fun py_truthy :: "pyval \<Rightarrow> bool" where
  "py_truthy PNone = False"
| "py_truthy (PBool b) = b"
| "py_truthy (PInt i) = (i \<noteq> 0)"
| "py_truthy (PStr s) = (s \<noteq> [])"
| "py_truthy (PList xs) = (xs \<noteq> [])"
| "py_truthy (PDict kvs) = (kvs \<noteq> [])"

text \<open>\<open>context[key]\<close>: a missing key raises \<open>KeyError\<close>.\<close>

definition subscript :: "ctx \<Rightarrow> string \<Rightarrow> py_error + pyval" where
  "subscript c k = (case map_of c k of None \<Rightarrow> Inl KeyError | Some v \<Rightarrow> Inr v)"

section \<open>\<open>str.replace\<close>\<close>

definition starts_with :: "string \<Rightarrow> string \<Rightarrow> bool" where
  "starts_with old s = (take (length old) s = old)"

function replace_from :: "string \<Rightarrow> string \<Rightarrow> string \<Rightarrow> string" where
  "replace_from old new [] = []"
| "replace_from old new (c # cs) =
     (if old \<noteq> [] \<and> starts_with old (c # cs)
      then new @ replace_from old new (drop (length old) (c # cs))
      else c # replace_from old new cs)"
  by pat_completeness auto
termination
  by (relation "measure (\<lambda>(old, new, s). length s)") auto

text \<open>Occurrences are replaced from the left and do not overlap; an empty \<open>old\<close>
  matches before every character and at the end.\<close>

definition replace :: "string \<Rightarrow> string \<Rightarrow> string \<Rightarrow> string" where
  "replace old new s =
     (if old = [] then new @ concat (map (\<lambda>c. c # new) s) else replace_from old new s)"

section \<open>The regular expressions of the renderer\<close>

text \<open>
  Character classes of \<open>re\<close> on text: \<open>\s\<close>, \<open>\w\<close>, \<open>.\<close> without and with \<open>DOTALL\<close>.
\<close>

datatype cls = Space | Word | Dot | DotAll

definition is_space :: "char \<Rightarrow> bool" where
  "is_space c = (let n = (of_char c :: nat) in
     (9 \<le> n \<and> n \<le> 13) \<or> (28 \<le> n \<and> n \<le> 32) \<or> n = 133 \<or> n = 160)"

definition is_word :: "char \<Rightarrow> bool" where
  "is_word c = (let n = (of_char c :: nat) in
     (48 \<le> n \<and> n \<le> 57) \<or> (65 \<le> n \<and> n \<le> 90) \<or> n = 95 \<or> (97 \<le> n \<and> n \<le> 122)
     \<or> n = 170 \<or> n = 178 \<or> n = 179 \<or> n = 181 \<or> n = 185 \<or> n = 186
     \<or> (188 \<le> n \<and> n \<le> 190) \<or> (192 \<le> n \<and> n \<le> 214) \<or> (216 \<le> n \<and> n \<le> 246)
     \<or> 248 \<le> n)"

fun in_cls :: "cls \<Rightarrow> char \<Rightarrow> bool" where
  "in_cls Space c = is_space c"
| "in_cls Word c = is_word c"
| "in_cls Dot c = (of_char c \<noteq> (10::nat))"
| "in_cls DotAll c = True"

text \<open>
  A pattern is a sequence of items: a literal character, or a repetition of a class,
  greedy or lazy, with a least count, captured as a group or not. These are all the
  constructs that the patterns of the source use.
\<close>

datatype rx = Lit char | Rep bool bool cls nat

type_synonym mres = "string list \<times> string"

text \<open>
  A backtracking matcher: the first success in the order in which \<open>re\<close> tries the
  alternatives. A greedy repetition takes a character whenever it can and gives it back
  only when the rest of the pattern fails; a lazy one tries the rest of the pattern
  first. The result of a repetition is the text it took and the result of the rest.
\<close>

fun greedy_rep :: "cls \<Rightarrow> nat \<Rightarrow> (string \<Rightarrow> mres option) \<Rightarrow> string \<Rightarrow> (string \<times> mres) option" where
  "greedy_rep cl n k [] = (if n = 0 then map_option (Pair []) (k []) else None)"
| "greedy_rep cl n k (c # cs) =
     (if in_cls cl c then
        (case greedy_rep cl (n - 1) k cs of
           Some (t, r) \<Rightarrow> Some (c # t, r)
         | None \<Rightarrow> if n = 0 then map_option (Pair []) (k (c # cs)) else None)
      else if n = 0 then map_option (Pair []) (k (c # cs)) else None)"

fun lazy_rep :: "cls \<Rightarrow> nat \<Rightarrow> (string \<Rightarrow> mres option) \<Rightarrow> string \<Rightarrow> (string \<times> mres) option" where
  "lazy_rep cl n k [] = (if n = 0 then map_option (Pair []) (k []) else None)"
| "lazy_rep cl n k (c # cs) =
     (if n = 0 then
        (case k (c # cs) of
           Some r \<Rightarrow> Some ([], r)
         | None \<Rightarrow> if in_cls cl c
             then map_option (\<lambda>(t, r). (c # t, r)) (lazy_rep cl 0 k cs) else None)
      else if in_cls cl c
        then map_option (\<lambda>(t, r). (c # t, r)) (lazy_rep cl (n - 1) k cs) else None)"

fun rx_item :: "rx \<Rightarrow> (string \<Rightarrow> mres option) \<Rightarrow> string \<Rightarrow> mres option" where
  "rx_item (Lit c) k s = (case s of [] \<Rightarrow> None | x # xs \<Rightarrow> if x = c then k xs else None)"
| "rx_item (Rep greedy cap cl n) k s =
     (case (if greedy then greedy_rep cl n k s else lazy_rep cl n k s) of
        None \<Rightarrow> None
      | Some (t, (caps, rest)) \<Rightarrow> Some (if cap then t # caps else caps, rest))"

primrec rx_match :: "rx list \<Rightarrow> string \<Rightarrow> mres option" where
  "rx_match [] s = Some ([], s)"
| "rx_match (a # as) s = rx_item a (rx_match as) s"

text \<open>
  \<open>re.sub(pattern, repl, text)\<close> with a function \<open>repl\<close> that may raise: the matches are
  searched from the left, each replaced by the callback's result; the scan goes on
  behind a match, and behind the next character after an empty one.
\<close>

function re_sub :: "rx list \<Rightarrow> (string list \<Rightarrow> py_error + string) \<Rightarrow> string \<Rightarrow> py_error + string" where
  "re_sub p f s =
     (case rx_match p s of
        Some (caps, rest) \<Rightarrow>
          (case f caps of
             Inl e \<Rightarrow> Inl e
           | Inr out \<Rightarrow>
               if length rest < length s then map_sum id ((@) out) (re_sub p f rest)
               else (case s of
                       [] \<Rightarrow> Inr out
                     | c # cs \<Rightarrow> map_sum id (\<lambda>r. out @ c # r) (re_sub p f cs)))
      | None \<Rightarrow>
          (case s of
             [] \<Rightarrow> Inr []
           | c # cs \<Rightarrow> map_sum id ((#) c) (re_sub p f cs)))"
  by pat_completeness auto
termination
  by (relation "measure (\<lambda>(p, f, s). length s)") auto

declare re_sub.simps [simp del]

definition lits :: "string \<Rightarrow> rx list" where
  "lits s = map Lit s"

text \<open>\<^verbatim>\<open>{%\s*for\s+(\w+)\s+in\s+(\w+)\s*%}(.*?){%\s*endfor\s*%}\<close> with \<open>DOTALL\<close>\<close>

definition for_pattern :: "rx list" where
  "for_pattern =
     lits ''{%'' @ [Rep True False Space 0] @ lits ''for'' @
     [Rep True False Space 1, Rep True True Word 1, Rep True False Space 1] @ lits ''in'' @
     [Rep True False Space 1, Rep True True Word 1, Rep True False Space 0] @ lits ''%}'' @
     [Rep False True DotAll 0] @
     lits ''{%'' @ [Rep True False Space 0] @ lits ''endfor'' @ [Rep True False Space 0] @ lits ''%}''"

text \<open>\<^verbatim>\<open>{%\s*if\s+(\w+)\s*%}(.*?){%\s*endif\s*%}\<close> with \<open>DOTALL\<close>\<close>

definition if_pattern :: "rx list" where
  "if_pattern =
     lits ''{%'' @ [Rep True False Space 0] @ lits ''if'' @
     [Rep True False Space 1, Rep True True Word 1, Rep True False Space 0] @ lits ''%}'' @
     [Rep False True DotAll 0] @
     lits ''{%'' @ [Rep True False Space 0] @ lits ''endif'' @ [Rep True False Space 0] @ lits ''%}''"

text \<open>\<^verbatim>\<open>{%.*?%}\<close> and \<^verbatim>\<open>{{.*?}}\<close>, without \<open>DOTALL\<close>\<close>

definition tag_pattern :: "rx list" where
  "tag_pattern = lits ''{%'' @ [Rep False False Dot 0] @ lits ''%}''"

definition var_pattern :: "rx list" where
  "var_pattern = lits ''{{'' @ [Rep False False Dot 0] @ lits ''}}''"

text \<open>The number of groups of a pattern.\<close>

fun captures :: "rx \<Rightarrow> bool" where
  "captures (Lit c) = False"
| "captures (Rep g cap cl n) = cap"

definition ngroups :: "rx list \<Rightarrow> nat" where
  "ngroups p = length (filter captures p)"

section \<open>\<open>SimpleTemplate.render\<close>\<close>

text \<open>The body of the loop over \<open>items\<close> in \<open>replace_for\<close>, for one item.\<close>

definition loop_item :: "string \<Rightarrow> string \<Rightarrow> pyval \<Rightarrow> string" where
  "loop_item var_name loop_body item =
     (case item of
        PDict kvs \<Rightarrow>
          fold (\<lambda>(k, v) body_result.
                  replace (''{{ '' @ var_name @ ''.'' @ py_str k @ '' }}'') (py_str v) body_result)
               kvs loop_body
      | _ \<Rightarrow> replace (''{{ '' @ var_name @ '' }}'') (py_str item) loop_body)"

definition replace_for :: "ctx \<Rightarrow> string list \<Rightarrow> py_error + string" where
  "replace_for c groups =
     (case groups of
        [var_name, list_name, loop_body] \<Rightarrow>
          if map_of c list_name = None then Inr []
          else (case subscript c list_name of
                  Inl e \<Rightarrow> Inl e
                | Inr items \<Rightarrow>
                    (case items of
                       PList its \<Rightarrow> Inr (concat (map (loop_item var_name loop_body) its))
                     | _ \<Rightarrow> Inr []))
      | _ \<Rightarrow> Inl IndexError)"

definition replace_if :: "ctx \<Rightarrow> string list \<Rightarrow> py_error + string" where
  "replace_if c groups =
     (case groups of
        [condition, body] \<Rightarrow>
          if map_of c condition = None then Inr []
          else (case subscript c condition of
                  Inl e \<Rightarrow> Inl e
                | Inr v \<Rightarrow> if py_truthy v then Inr body else Inr [])
      | _ \<Rightarrow> Inl IndexError)"

definition substitute_variables :: "ctx \<Rightarrow> string \<Rightarrow> string" where
  "substitute_variables c template =
     fold (\<lambda>(key, value) result. replace (''{{ '' @ key @ '' }}'') (py_str value) result) c template"

definition cleanup :: "string \<Rightarrow> py_error + string" where
  "cleanup s =
     (case re_sub tag_pattern (\<lambda>_. Inr []) s of
        Inl e \<Rightarrow> Inl e
      | Inr s' \<Rightarrow> re_sub var_pattern (\<lambda>_. Inr []) s')"

definition render :: "string \<Rightarrow> ctx \<Rightarrow> py_error + string" where
  "render template c =
     (case re_sub for_pattern (replace_for c) (substitute_variables c template) of
        Inl e \<Rightarrow> Inl e
      | Inr r1 \<Rightarrow>
          (case re_sub if_pattern (replace_if c) r1 of
             Inl e \<Rightarrow> Inl e
           | Inr r2 \<Rightarrow> cleanup r2))"

section \<open>\<open>DocGenerator.build_context\<close>\<close>

text \<open>
  What \<open>build_context\<close> reads besides the catalog: the clock, as the fields that
  \<open>strftime("%Y-%m-%d %H:%M:%S")\<close> prints, and the files, as a function from a path to the
  text that \<open>read()\<close> returns, \<open>None\<close> where the file is missing or cannot be read. A path
  is the list of the parts joined by \<open>/\<close>.
\<close>

record datetime =
  year :: nat
  month :: nat
  day :: nat
  hour :: nat
  minute :: nat
  second :: nat

type_synonym files = "string list \<Rightarrow> string option"

definition zero_pad :: "nat \<Rightarrow> nat \<Rightarrow> string" where
  "zero_pad w n = replicate (w - length (str_nat n)) CHR ''0'' @ str_nat n"

definition strftime :: "datetime \<Rightarrow> string" where
  "strftime t =
     zero_pad 4 (year t) @ ''-'' @ zero_pad 2 (month t) @ ''-'' @ zero_pad 2 (day t) @ '' '' @
     zero_pad 2 (hour t) @ '':'' @ zero_pad 2 (minute t) @ '':'' @ zero_pad 2 (second t)"

subsection \<open>Dictionaries, \<open>len\<close> and iteration\<close>

text \<open>Keys compare as Python compares them: \<open>True == 1\<close> and \<open>False == 0\<close>.\<close>

fun key_norm :: "pyval \<Rightarrow> pyval" where
  "key_norm (PBool b) = PInt (if b then 1 else 0)"
| "key_norm v = v"

fun dict_get :: "(pyval \<times> 'v) list \<Rightarrow> pyval \<Rightarrow> 'v option" where
  "dict_get [] k = None"
| "dict_get ((k', v) # kvs) k = (if key_norm k' = key_norm k then Some v else dict_get kvs k)"

fun hashable :: "pyval \<Rightarrow> bool" where
  "hashable (PList xs) = False"
| "hashable (PDict kvs) = False"
| "hashable v = True"

fun py_len :: "pyval \<Rightarrow> py_error + int" where
  "py_len (PList xs) = Inr (int (length xs))"
| "py_len (PDict kvs) = Inr (int (length kvs))"
| "py_len (PStr s) = Inr (int (length s))"
| "py_len v = Inl TypeError"

fun py_iter :: "pyval \<Rightarrow> py_error + pyval list" where
  "py_iter (PList xs) = Inr xs"
| "py_iter (PDict kvs) = Inr (map fst kvs)"
| "py_iter (PStr s) = Inr (map (\<lambda>c. PStr [c]) s)"
| "py_iter v = Inl TypeError"

subsection \<open>\<open>extract_frontmatter\<close>\<close>

text \<open>\<^verbatim>\<open>^---\s*\n(.*?)\n---\s*\n\<close> with \<open>DOTALL\<close>, matched at the start of the text\<close>

definition newline :: char where
  "newline = char_of (10::nat)"

definition frontmatter_pattern :: "rx list" where
  "frontmatter_pattern =
     lits ''---'' @ [Rep True False Space 0, Lit newline, Rep False True DotAll 0, Lit newline] @
     lits ''---'' @ [Rep True False Space 0, Lit newline]"

fun split_on :: "char \<Rightarrow> string \<Rightarrow> string list" where
  "split_on d [] = [[]]"
| "split_on d (x # xs) =
     (if x = d then [] # split_on d xs
      else (case split_on d xs of [] \<Rightarrow> [[x]] | y # ys \<Rightarrow> (x # y) # ys))"

definition strip_chars :: "(char \<Rightarrow> bool) \<Rightarrow> string \<Rightarrow> string" where
  "strip_chars P s = rev (dropWhile P (rev (dropWhile P s)))"

definition is_quote :: "char \<Rightarrow> bool" where
  "is_quote c = (of_char c = (34::nat) \<or> of_char c = (39::nat))"

fun fm_update :: "string \<Rightarrow> string \<Rightarrow> (string \<times> string) list \<Rightarrow> (string \<times> string) list" where
  "fm_update k v [] = [(k, v)]"
| "fm_update k v ((k', v') # kvs) = (if k' = k then (k, v) # kvs else (k', v') # fm_update k v kvs)"

definition parse_line :: "string \<Rightarrow> (string \<times> string) list \<Rightarrow> (string \<times> string) list" where
  "parse_line line frontmatter =
     (if CHR '':'' \<in> set line then
        fm_update (strip_chars is_space (takeWhile (\<lambda>c. c \<noteq> CHR '':'') line))
                  (strip_chars is_quote (strip_chars is_space (tl (dropWhile (\<lambda>c. c \<noteq> CHR '':'') line))))
                  frontmatter
      else frontmatter)"

definition extract_frontmatter :: "files \<Rightarrow> string list \<Rightarrow> (string \<times> string) list" where
  "extract_frontmatter fs file_path =
     (case fs file_path of
        None \<Rightarrow> []
      | Some content \<Rightarrow>
          (case rx_match frontmatter_pattern content of
             None \<Rightarrow> []
           | Some (groups, rest) \<Rightarrow>
               (case groups of
                  [frontmatter_text] \<Rightarrow> fold parse_line (split_on newline frontmatter_text) []
                | _ \<Rightarrow> [])))"

definition fm_get :: "(string \<times> string) list \<Rightarrow> string \<Rightarrow> string \<Rightarrow> string" where
  "fm_get frontmatter k d = (case map_of frontmatter k of None \<Rightarrow> d | Some v \<Rightarrow> v)"

subsection \<open>The loop over the plugins\<close>

text \<open>The parts of the context that the loop updates.\<close>

record collected =
  plugins_by_category :: "(pyval \<times> pyval list) list"
  all_agents :: "pyval list"
  all_skills :: "pyval list"
  all_commands :: "pyval list"
  total_agents :: int
  total_commands :: int
  total_skills :: int

definition lstrip_dot_slash :: "string \<Rightarrow> string" where
  "lstrip_dot_slash s = dropWhile (\<lambda>c. c = CHR ''.'' \<or> c = CHR ''/'') s"

definition plugin_dir :: "pyval \<Rightarrow> string" where
  "plugin_dir plugin_name = ''plugins/'' @ py_str plugin_name"

definition agent_entry :: "files \<Rightarrow> pyval \<Rightarrow> string \<Rightarrow> pyval" where
  "agent_entry fs plugin_name agent_path =
     (let agent_file = replace ''./agents/'' [] agent_path;
          frontmatter = extract_frontmatter fs [plugin_dir plugin_name, lstrip_dot_slash agent_path]
      in PDict [(PStr ''plugin'', plugin_name),
                (PStr ''name'', PStr (fm_get frontmatter ''name'' (replace ''.md'' [] agent_file))),
                (PStr ''file'', PStr agent_file),
                (PStr ''description'', PStr (fm_get frontmatter ''description'' [])),
                (PStr ''model'', PStr (fm_get frontmatter ''model'' []))])"

definition command_entry :: "files \<Rightarrow> pyval \<Rightarrow> string \<Rightarrow> pyval" where
  "command_entry fs plugin_name cmd_path =
     (let cmd_file = replace ''./commands/'' [] cmd_path;
          frontmatter = extract_frontmatter fs [plugin_dir plugin_name, lstrip_dot_slash cmd_path]
      in PDict [(PStr ''plugin'', plugin_name),
                (PStr ''name'', PStr (fm_get frontmatter ''name'' (replace ''.md'' [] cmd_file))),
                (PStr ''file'', PStr cmd_file),
                (PStr ''description'', PStr (fm_get frontmatter ''description'' []))])"

definition skill_entry :: "files \<Rightarrow> pyval \<Rightarrow> string \<Rightarrow> pyval" where
  "skill_entry fs plugin_name skill_path =
     (let skill_name = replace ''./skills/'' [] skill_path;
          frontmatter = extract_frontmatter fs
            [plugin_dir plugin_name, lstrip_dot_slash skill_path, ''SKILL.md'']
      in PDict [(PStr ''plugin'', plugin_name),
                (PStr ''name'', PStr (fm_get frontmatter ''name'' skill_name)),
                (PStr ''path'', PStr skill_name),
                (PStr ''description'', PStr (fm_get frontmatter ''description'' []))])"

text \<open>
  One of the three inner loops: every path must be a string, since \<open>replace\<close> is called on
  it. The result is the new entries and the length that is added to the counter.
\<close>

fun entries :: "(string \<Rightarrow> pyval) \<Rightarrow> pyval list \<Rightarrow> py_error + pyval list" where
  "entries mk [] = Inr []"
| "entries mk (PStr p # ps) = map_sum id ((#) (mk p)) (entries mk ps)"
| "entries mk (v # ps) = Inl AttributeError"

definition component :: "(string \<Rightarrow> pyval) \<Rightarrow> pyval \<Rightarrow> py_error + (pyval list \<times> int)" where
  "component mk paths =
     (case py_iter paths of
        Inl e \<Rightarrow> Inl e
      | Inr ps \<Rightarrow>
          (case entries mk ps of
             Inl e \<Rightarrow> Inl e
           | Inr es \<Rightarrow> (case py_len paths of Inl e \<Rightarrow> Inl e | Inr n \<Rightarrow> Inr (es, n))))"

definition add_to_category :: "pyval \<Rightarrow> pyval \<Rightarrow> (pyval \<times> pyval list) list \<Rightarrow> (pyval \<times> pyval list) list" where
  "add_to_category category plugin cats =
     map (\<lambda>(k, ps). if key_norm k = key_norm category then (k, ps @ [plugin]) else (k, ps))
       (if dict_get cats category = None then cats @ [(category, [])] else cats)"

definition plugin_step :: "files \<Rightarrow> pyval \<Rightarrow> collected \<Rightarrow> py_error + collected" where
  "plugin_step fs plugin st =
     (case plugin of
        PDict pfields \<Rightarrow>
          (let category = (case dict_get pfields (PStr ''category'') of
                             None \<Rightarrow> PStr ''general'' | Some v \<Rightarrow> v)
           in if \<not> hashable category then Inl TypeError
              else
                (let st1 = st\<lparr>plugins_by_category :=
                              add_to_category category plugin (plugins_by_category st)\<rparr>;
                     plugin_name = (case dict_get pfields (PStr ''name'') of
                                      None \<Rightarrow> PStr [] | Some v \<Rightarrow> v)
                 in case (case dict_get pfields (PStr ''agents'') of
                            None \<Rightarrow> Inr st1
                          | Some paths \<Rightarrow>
                              map_sum id (\<lambda>(es, n). st1\<lparr>all_agents := all_agents st1 @ es,
                                                        total_agents := total_agents st1 + n\<rparr>)
                                (component (agent_entry fs plugin_name) paths)) of
                      Inl e \<Rightarrow> Inl e
                    | Inr st2 \<Rightarrow>
                   (case (case dict_get pfields (PStr ''commands'') of
                            None \<Rightarrow> Inr st2
                          | Some paths \<Rightarrow>
                              map_sum id (\<lambda>(es, n). st2\<lparr>all_commands := all_commands st2 @ es,
                                                        total_commands := total_commands st2 + n\<rparr>)
                                (component (command_entry fs plugin_name) paths)) of
                      Inl e \<Rightarrow> Inl e
                    | Inr st3 \<Rightarrow>
                        (case dict_get pfields (PStr ''skills'') of
                           None \<Rightarrow> Inr st3
                         | Some paths \<Rightarrow>
                             map_sum id (\<lambda>(es, n). st3\<lparr>all_skills := all_skills st3 @ es,
                                                       total_skills := total_skills st3 + n\<rparr>)
                               (component (skill_entry fs plugin_name) paths)))))
      | _ \<Rightarrow> Inl AttributeError)"

fun plugins_loop :: "files \<Rightarrow> pyval list \<Rightarrow> collected \<Rightarrow> py_error + collected" where
  "plugins_loop fs [] st = Inr st"
| "plugins_loop fs (plugin # plugins) st =
     (case plugin_step fs plugin st of Inl e \<Rightarrow> Inl e | Inr st' \<Rightarrow> plugins_loop fs plugins st')"

definition initial :: collected where
  "initial = \<lparr>plugins_by_category = [], all_agents = [], all_skills = [], all_commands = [],
              total_agents = 0, total_commands = 0, total_skills = 0\<rparr>"

text \<open>The context dictionary, its keys in the order in which the literal creates them.\<close>

definition the_context :: "(pyval \<times> pyval) list \<Rightarrow> datetime \<Rightarrow> int \<Rightarrow> collected \<Rightarrow> ctx" where
  "the_context marketplace_data t total_plugins st =
     [(''marketplace'', PDict marketplace_data),
      (''now'', PStr (strftime t)),
      (''plugins_by_category'', PDict (map (\<lambda>(k, ps). (k, PList ps)) (plugins_by_category st))),
      (''all_agents'', PList (all_agents st)),
      (''all_skills'', PList (all_skills st)),
      (''all_commands'', PList (all_commands st)),
      (''stats'', PDict [(PStr ''total_plugins'', PInt total_plugins),
                         (PStr ''total_agents'', PInt (total_agents st)),
                         (PStr ''total_commands'', PInt (total_commands st)),
                         (PStr ''total_skills'', PInt (total_skills st))])]"

text \<open>
  The catalog is a dictionary, as \<open>marketplace_data\<close> is declared. What it holds under
  \<open>plugins\<close> is not constrained: \<open>len\<close>, the iteration and \<open>plugin.get\<close> raise as Python
  does on a value of the wrong kind.
\<close>

definition build_context :: "(pyval \<times> pyval) list \<Rightarrow> files \<Rightarrow> datetime \<Rightarrow> py_error + ctx" where
  "build_context marketplace_data fs t =
     (case dict_get marketplace_data (PStr ''plugins'') of
        None \<Rightarrow> Inr (the_context marketplace_data t 0 initial)
      | Some plugins \<Rightarrow>
          (case py_len plugins of
             Inl e \<Rightarrow> Inl e
           | Inr n \<Rightarrow>
               (case py_iter plugins of
                  Inl e \<Rightarrow> Inl e
                | Inr ps \<Rightarrow>
                    map_sum id (the_context marketplace_data t n) (plugins_loop fs ps initial))))"

subsection \<open>Concrete inputs\<close>

definition no_files :: files where
  "no_files = (\<lambda>p. None)"

definition noon :: datetime where
  "noon = \<lparr>year = 2024, month = 5, day = 17, hour = 12, minute = 0, second = 0\<rparr>"

section \<open>\<open>render\<close> with the objects it writes\<close>

text \<open>
  The same function, with the store written out. An object is a dictionary or the local
  list \<open>output\<close>; an address is an index into the store, and a new object goes to the end.
  A dictionary is stored with the values it holds. The statements of \<open>render\<close> that write
  are \<open>context.copy()\<close> and \<open>output = []\<close>, which make an object,
  \<open>loop_context[var_name] = item\<close>, which writes to the copy, and \<open>output.append\<close>;
  the others read.
\<close>

datatype obj = Dict ctx | Strs "string list"

type_synonym store = "obj list"

type_synonym 'a eff = "store \<Rightarrow> (py_error + 'a) \<times> store"

definition ret :: "'a \<Rightarrow> 'a eff" where
  "ret x st = (Inr x, st)"

definition raise :: "py_error \<Rightarrow> 'a eff" where
  "raise e st = (Inl e, st)"

definition bind :: "'a eff \<Rightarrow> ('a \<Rightarrow> 'b eff) \<Rightarrow> 'b eff" where
  "bind m f st = (case m st of (Inl e, st') \<Rightarrow> (Inl e, st') | (Inr x, st') \<Rightarrow> f x st')"

definition object_at :: "store \<Rightarrow> nat \<Rightarrow> obj option" where
  "object_at st a = (if a < length st then Some (st ! a) else None)"

definition get_dict :: "nat \<Rightarrow> ctx eff" where
  "get_dict a st = (case object_at st a of Some (Dict c) \<Rightarrow> (Inr c, st) | _ \<Rightarrow> (Inl AttributeError, st))"

definition get_strs :: "nat \<Rightarrow> string list eff" where
  "get_strs a st = (case object_at st a of Some (Strs xs) \<Rightarrow> (Inr xs, st) | _ \<Rightarrow> (Inl TypeError, st))"

definition copy_dict :: "nat \<Rightarrow> nat eff" where
  "copy_dict a st =
     (case object_at st a of
        Some (Dict c) \<Rightarrow> (Inr (length st), st @ [Dict c])
      | _ \<Rightarrow> (Inl AttributeError, st))"

fun dict_set :: "string \<Rightarrow> pyval \<Rightarrow> ctx \<Rightarrow> ctx" where
  "dict_set k v [] = [(k, v)]"
| "dict_set k v ((k', v') # kvs) = (if k' = k then (k', v) # kvs else (k', v') # dict_set k v kvs)"

definition set_item :: "nat \<Rightarrow> string \<Rightarrow> pyval \<Rightarrow> unit eff" where
  "set_item a k v st =
     (case object_at st a of
        Some (Dict c) \<Rightarrow> (Inr (), st[a := Dict (dict_set k v c)])
      | _ \<Rightarrow> (Inl TypeError, st))"

definition new_list :: "nat eff" where
  "new_list st = (Inr (length st), st @ [Strs []])"

definition append_str :: "nat \<Rightarrow> string \<Rightarrow> unit eff" where
  "append_str a s st =
     (case object_at st a of
        Some (Strs xs) \<Rightarrow> (Inr (), st[a := Strs (xs @ [s])])
      | _ \<Rightarrow> (Inl AttributeError, st))"

fun loop_items_st :: "nat \<Rightarrow> string \<Rightarrow> string \<Rightarrow> nat \<Rightarrow> pyval list \<Rightarrow> unit eff" where
  "loop_items_st context var_name loop_body output [] = ret ()"
| "loop_items_st context var_name loop_body output (item # items) =
     bind (copy_dict context) (\<lambda>loop_context.
     bind (set_item loop_context var_name item) (\<lambda>_.
     bind (append_str output (loop_item var_name loop_body item)) (\<lambda>_.
     loop_items_st context var_name loop_body output items)))"

definition replace_for_st :: "nat \<Rightarrow> string list \<Rightarrow> string eff" where
  "replace_for_st context groups =
     (case groups of
        [var_name, list_name, loop_body] \<Rightarrow>
          bind (get_dict context) (\<lambda>c.
            if map_of c list_name = None then ret []
            else (case subscript c list_name of
                    Inl e \<Rightarrow> raise e
                  | Inr items \<Rightarrow>
                      (case items of
                         PList its \<Rightarrow>
                           bind new_list (\<lambda>output.
                           bind (loop_items_st context var_name loop_body output its) (\<lambda>_.
                           bind (get_strs output) (\<lambda>xs. ret (concat xs))))
                       | _ \<Rightarrow> ret [])))
      | _ \<Rightarrow> raise IndexError)"

text \<open>\<open>replace_if\<close> reads the context and writes nothing.\<close>

definition replace_if_st :: "nat \<Rightarrow> string list \<Rightarrow> string eff" where
  "replace_if_st context groups = bind (get_dict context) (\<lambda>c. case replace_if c groups of Inl e \<Rightarrow> raise e | Inr s \<Rightarrow> ret s)"

function re_sub_st :: "rx list \<Rightarrow> (string list \<Rightarrow> string eff) \<Rightarrow> string \<Rightarrow> string eff" where
  "re_sub_st p f s st =
     (case rx_match p s of
        Some (caps, rest) \<Rightarrow>
          (case f caps st of
             (Inl e, st') \<Rightarrow> (Inl e, st')
           | (Inr out, st') \<Rightarrow>
               if length rest < length s
               then (case re_sub_st p f rest st' of (r, st'') \<Rightarrow> (map_sum id ((@) out) r, st''))
               else (case s of
                       [] \<Rightarrow> (Inr out, st')
                     | c # cs \<Rightarrow>
                         (case re_sub_st p f cs st' of
                            (r, st'') \<Rightarrow> (map_sum id (\<lambda>r. out @ c # r) r, st''))))
      | None \<Rightarrow>
          (case s of
             [] \<Rightarrow> (Inr [], st)
           | c # cs \<Rightarrow> (case re_sub_st p f cs st of (r, st'') \<Rightarrow> (map_sum id ((#) c) r, st''))))"
  by pat_completeness auto
termination
  by (relation "measure (\<lambda>(p, f, s, st). length s)") auto

declare re_sub_st.simps [simp del]

definition render_st :: "nat \<Rightarrow> string \<Rightarrow> string eff" where
  "render_st context template =
     bind (get_dict context) (\<lambda>c.
     bind (re_sub_st for_pattern (replace_for_st context) (substitute_variables c template)) (\<lambda>r1.
     bind (re_sub_st if_pattern (replace_if_st context) r1) (\<lambda>r2.
     (\<lambda>st. (cleanup r2, st)))))"

section \<open>Names and text without directives\<close>

text \<open>
  A name is what \<open>\w+\<close> matches as a whole: a non-empty run of word characters.
  \<open>has_pair a b s\<close> says that \<open>a\<close> is followed at once by \<open>b\<close> somewhere in \<open>s\<close>; every
  directive starts with such a pair, \<open>{%\<close> or \<open>{{\<close>.
\<close>

definition is_name :: "string \<Rightarrow> bool" where
  "is_name s = (s \<noteq> [] \<and> list_all is_word s)"

fun has_pair :: "char \<Rightarrow> char \<Rightarrow> string \<Rightarrow> bool" where
  "has_pair a b (x # y # s) = ((x = a \<and> y = b) \<or> has_pair a b (y # s))"
| "has_pair a b s = False"

section \<open>The matcher and \<open>re.sub\<close>\<close>

lemma greedy_rep_SomeD:
  "greedy_rep cl n k s = Some (t, r) \<Longrightarrow> s = t @ drop (length t) s \<and> k (drop (length t) s) = Some r \<and> list_all (in_cls cl) t \<and> n \<le> length t"
proof (induction s arbitrary: n t)
  case Nil
  then show ?case by (auto split: if_splits)
next
  case (Cons c cs)
  show ?case
  proof (cases "in_cls cl c")
    case False
    with Cons.prems show ?thesis by (auto split: if_splits)
  next
    case True
    show ?thesis
    proof (cases "greedy_rep cl (n - 1) k cs")
      case None
      with True Cons.prems show ?thesis by (auto split: if_splits)
    next
      case (Some a)
      obtain t' r' where a: "a = (t', r')" by (cases a)
      from Cons.prems True Some a have tr: "t = c # t'" "r = r'" by auto
      from Cons.IH[of "n - 1" t'] Some a tr have ih: "cs = t' @ drop (length t') cs \<and> k (drop (length t') cs) = Some r' \<and> list_all (in_cls cl) t' \<and> n - 1 \<le> length t'" by simp
      with tr True show ?thesis by auto
    qed
  qed
qed

lemma lazy_rep_SomeD:
  "lazy_rep cl n k s = Some (t, r) \<Longrightarrow> s = t @ drop (length t) s \<and> k (drop (length t) s) = Some r \<and> list_all (in_cls cl) t \<and> n \<le> length t"
proof (induction s arbitrary: n t)
  case Nil
  then show ?case by (auto split: if_splits)
next
  case (Cons c cs)
  show ?case
  proof (cases "n = 0")
    case n0: True
    show ?thesis
    proof (cases "k (c # cs)")
      case (Some a)
      with n0 Cons.prems show ?thesis by auto
    next
      case None
      with n0 Cons.prems obtain t' where t': "in_cls cl c" "lazy_rep cl 0 k cs = Some (t', r)" "t = c # t'"
        by (auto split: if_splits)
      from Cons.IH[OF t'(2)] t' n0 show ?thesis by auto
    qed
  next
    case False
    with Cons.prems obtain t' where t': "in_cls cl c" "lazy_rep cl (n - 1) k cs = Some (t', r)" "t = c # t'"
      by (auto split: if_splits)
    from Cons.IH[OF t'(2)] t' False show ?thesis by auto
  qed
qed

lemma rx_match_SomeD:
  "rx_match p s = Some (caps, rest) \<Longrightarrow> length caps = ngroups p \<and> (\<exists>u. s = u @ rest)"
proof (induction p arbitrary: s caps)
  case Nil
  then show ?case by (simp add: ngroups_def)
next
  case (Cons a p)
  show ?case
  proof (cases a)
    case (Lit c)
    with Cons.prems obtain xs where "s = c # xs" "rx_match p xs = Some (caps, rest)"
      by (auto split: list.splits if_splits)
    with Cons.IH[of xs caps] Lit show ?thesis by (auto simp: ngroups_def)
  next
    case (Rep g cap cl n)
    from Cons.prems Rep obtain t caps' where
      m: "(if g then greedy_rep cl n (rx_match p) s else lazy_rep cl n (rx_match p) s) = Some (t, (caps', rest))"
      and c: "caps = (if cap then t # caps' else caps')"
      by (auto split: option.splits)
    from m have "s = t @ drop (length t) s \<and> rx_match p (drop (length t) s) = Some (caps', rest)"
    proof (cases g)
      case True
      with m have "greedy_rep cl n (rx_match p) s = Some (t, (caps', rest))" by simp
      from greedy_rep_SomeD[OF this] show ?thesis by simp
    next
      case False
      with m have "lazy_rep cl n (rx_match p) s = Some (t, (caps', rest))" by simp
      from lazy_rep_SomeD[OF this] show ?thesis by simp
    qed
    with Cons.IH[of "drop (length t) s" caps'] c Rep show ?thesis
      by (auto simp: ngroups_def)
  qed
qed

lemma re_sub_total:
  assumes "\<And>caps. length caps = ngroups p \<Longrightarrow> \<exists>out. f caps = Inr out"
  shows "\<exists>r. re_sub p f s = Inr r"
proof (induction s rule: length_induct)
  case (1 s)
  show ?case
  proof (cases "rx_match p s")
    case None
    then show ?thesis
    proof (cases s)
      case Nil
      with None show ?thesis by (simp add: re_sub.simps)
    next
      case (Cons c cs)
      with 1 obtain r where "re_sub p f cs = Inr r" by auto
      with None Cons show ?thesis by (simp add: re_sub.simps)
    qed
  next
    case (Some a)
    obtain caps rest where a: "a = (caps, rest)" by (cases a)
    from rx_match_SomeD Some a have "length caps = ngroups p" by blast
    with assms obtain out where out: "f caps = Inr out" by blast
    show ?thesis
    proof (cases "length rest < length s")
      case True
      with 1 obtain r where "re_sub p f rest = Inr r" by blast
      with Some a out True show ?thesis by (simp add: re_sub.simps[of p f s])
    next
      case False
      show ?thesis
      proof (cases s)
        case Nil
        with Some a out False show ?thesis by (simp add: re_sub.simps[of p f "[]"])
      next
        case (Cons c cs)
        with 1 obtain r where "re_sub p f cs = Inr r" by auto
        with Some a out False Cons show ?thesis by (simp add: re_sub.simps[of p f "c # cs"])
      qed
    qed
  qed
qed

lemma ngroups_for: "ngroups for_pattern = 3"
  by (simp add: ngroups_def for_pattern_def lits_def)

lemma ngroups_if: "ngroups if_pattern = 2"
  by (simp add: ngroups_def if_pattern_def lits_def)

lemma replace_for_total: "length caps = 3 \<Longrightarrow> \<exists>out. replace_for c caps = Inr out"
  by (auto simp: replace_for_def subscript_def length_Suc_conv numeral_3_eq_3 split: option.splits pyval.splits list.splits)

lemma replace_if_total: "length caps = 2 \<Longrightarrow> \<exists>out. replace_if c caps = Inr out"
  by (auto simp: replace_if_def subscript_def length_Suc_conv numeral_2_eq_2 split: option.splits list.splits)

lemma cleanup_total: "\<exists>r. cleanup s = Inr r"
proof -
  obtain s' where 1: "re_sub tag_pattern (\<lambda>_. Inr []) s = Inr s'"
    using re_sub_total[of tag_pattern "\<lambda>_. Inr []" s] by auto
  obtain r where "re_sub var_pattern (\<lambda>_. Inr []) s' = Inr r"
    using re_sub_total[of var_pattern "\<lambda>_. Inr []" s'] by auto
  with 1 show ?thesis by (simp add: cleanup_def)
qed


section \<open>Leftover directive syntax\<close>

text \<open>
  C6: the output is claimed to hold no leftover \<open>{%...%}\<close> or \<open>{{...}}\<close> span. The two
  cleanup patterns are compiled without \<open>DOTALL\<close>, unlike the loop and conditional
  patterns, so a span with a line break inside is not removed: the template below comes
  back unchanged.
\<close>

theorem render_keeps_directive_across_lines:
  "render (''{{ name'' @ [newline] @ ''}}'') [] = Inr (''{{ name'' @ [newline] @ ''}}'')"
  by code_simp

text \<open>
  The two cleanup substitutions run once each, tags first: removing a \<open>{{...}}\<close> span can
  put a \<open>{%\<close> and a \<open>%}\<close> on either side of it together, on one line.
\<close>

lemma render_cleanup_makes_tag:
  "render ''{%x%{{a}}}'' [] = Inr ''{%x%}''"
  by code_simp

section \<open>The loop variable and the context\<close>

text \<open>
  C2: a loop is claimed to resolve \<open>{{ v }}\<close> against each element. When \<open>v\<close> is also a key
  of the context, the scalar pass has already replaced \<open>{{ v }}\<close> in the body by the
  context's value: the loop over \<open>[1, 2]\<close> below emits \<open>S\<close> twice. Without the key \<open>v\<close> in
  the context it emits the elements.
\<close>

theorem render_loop_variable_shadowed:
  "render ''{% for v in L %}{{ v }}{% endfor %}''
     [(''v'', PStr ''S''), (''L'', PList [PInt 1, PInt 2])] = Inr ''SS''"
  by code_simp

lemma render_loop_variable_free:
  "render ''{% for v in L %}{{ v }}{% endfor %}'' [(''L'', PList [PInt 1, PInt 2])] = Inr ''12''"
  by code_simp

section \<open>The context builder and the clock\<close>

lemma the_context_clock:
  "map (\<lambda>(k, v). if k = ''now'' then (k, PStr (strftime t2)) else (k, v)) (the_context md t1 n st)
     = the_context md t2 n st"
  by (simp add: the_context_def)

text \<open>
  C9, as it is stated: two calls of \<open>build_context\<close> on the same catalog and the same files
  give equal contexts. The context holds the time of the call under \<open>now\<close>, so two calls a
  second apart differ.
\<close>

theorem build_context_clock_counterexample:
  "build_context [] no_files noon \<noteq> build_context [] no_files (noon\<lparr>second := 1\<rparr>)"
  by (simp add: build_context_def the_context_def strftime_def noon_def zero_pad_def
        str_nat.simps digit_char_def)

text \<open>
  C9, amended: \<open>build_context\<close> is a function of the catalog, the files and the clock. Two
  calls on the same catalog and the same files, at any two times, fail alike or give
  contexts that differ in the entry \<open>now\<close> only, which holds the time of each call.
\<close>

theorem build_context_clock:
  "build_context md fs t2 =
     map_sum id (map (\<lambda>(k, v). if k = ''now'' then (k, PStr (strftime t2)) else (k, v)))
       (build_context md fs t1)"
proof (cases "dict_get md (PStr ''plugins'')")
  case None
  then show ?thesis by (simp add: build_context_def the_context_clock)
next
  case (Some plugins)
  show ?thesis
  proof (cases "py_len plugins")
    case (Inl e)
    with Some show ?thesis by (simp add: build_context_def)
  next
    case (Inr n)
    show ?thesis
    proof (cases "py_iter plugins")
      case (Inl e)
      with Some Inr show ?thesis by (simp add: build_context_def)
    next
      case ps: (Inr ps)
      show ?thesis
        using Some Inr ps
        by (cases "plugins_loop fs ps initial") (simp_all add: build_context_def the_context_clock)
    qed
  qed
qed

section \<open>The store across a call of \<open>render\<close>\<close>

lemma loop_items_st_keeps:
  "n \<le> output \<Longrightarrow> n \<le> length st \<Longrightarrow> loop_items_st context v b output items st = (r, st')
     \<Longrightarrow> length st \<le> length st' \<and> take n st' = take n st"
proof (induction items arbitrary: st)
  case Nil
  then show ?case by (simp add: ret_def)
next
  case (Cons item items)
  show ?case
  proof (cases "object_at st context")
    case None
    with Cons.prems show ?thesis by (simp add: bind_def copy_dict_def)
  next
    case (Some ob)
    show ?thesis
    proof (cases ob)
      case (Strs xs)
      with Some Cons.prems show ?thesis by (simp add: bind_def copy_dict_def)
    next
      case (Dict c)
      define st1 where "st1 = (st @ [Dict c])[length st := Dict (dict_set v item c)]"
      have len1: "length st1 = Suc (length st)" by (simp add: st1_def)
      have take1: "take n st1 = take n st" using Cons.prems(2) by (simp add: st1_def)
      have step1: "bind (copy_dict context) (\<lambda>loop_context. bind (set_item loop_context v item) k) st = k () st1" for k :: "unit \<Rightarrow> 'x eff"
        using Some Dict by (simp add: bind_def copy_dict_def set_item_def object_at_def st1_def)
      have main: "bind (append_str output (loop_item v b item))
          (\<lambda>_. loop_items_st context v b output items) st1 = (r, st')"
        using Cons.prems(3) by (simp only: loop_items_st.simps step1)
      show ?thesis
      proof (cases "object_at st1 output")
        case None
        with main len1 take1 show ?thesis
          by (auto simp add: bind_def append_str_def)
      next
        case os: (Some ob')
        show ?thesis
        proof (cases ob')
          case (Dict c')
          with os main len1 take1 show ?thesis
            by (auto simp add: bind_def append_str_def)
        next
          case (Strs xs)
          define st2 where "st2 = st1[output := Strs (xs @ [loop_item v b item])]"
          have 2: "loop_items_st context v b output items st2 = (r, st')"
            using os Strs main by (simp add: bind_def append_str_def st2_def)
          have "n \<le> length st2" using len1 Cons.prems(2) by (simp add: st2_def)
          from Cons.IH[OF Cons.prems(1) this 2] have "length st2 \<le> length st' \<and> take n st' = take n st2" .
          moreover have "take n st2 = take n st" using take1 Cons.prems(1) by (simp add: st2_def)
          moreover have "length st2 = Suc (length st)" using len1 by (simp add: st2_def)
          ultimately show ?thesis by simp
        qed
      qed
    qed
  qed
qed

lemma replace_for_st_keeps:
  assumes "n \<le> length st" "replace_for_st context groups st = (r, st')"
  shows "length st \<le> length st' \<and> take n st' = take n st"
proof (cases "\<exists>v l b. groups = [v, l, b]")
  case False
  then have "replace_for_st context groups st = (Inl IndexError, st)"
    by (auto simp: replace_for_st_def raise_def split: list.splits)
  with assms show ?thesis by simp
next
  case True
  then obtain v l b where g: "groups = [v, l, b]" by blast
  show ?thesis
  proof (cases "get_dict context st")
    case (Pair x st0)
    then have st0: "st0 = st" by (auto simp: get_dict_def split: option.splits obj.splits)
    show ?thesis
    proof (cases x)
      case (Inl e)
      with Pair st0 g assms show ?thesis by (simp add: replace_for_st_def bind_def)
    next
      case (Inr c)
      show ?thesis
      proof (cases "map_of c l")
        case None
        with Inr Pair st0 g assms show ?thesis by (simp add: replace_for_st_def bind_def ret_def)
      next
        case (Some items)
        show ?thesis
        proof (cases "\<exists>its. items = PList its")
          case False
          with Some Inr Pair st0 g assms show ?thesis
            by (cases items) (simp_all add: replace_for_st_def bind_def ret_def subscript_def)
        next
          case True
          then obtain its where its: "items = PList its" by blast
          obtain r2 st2 where l: "loop_items_st context v b (length st) its (st @ [Strs []]) = (r2, st2)"
            by (cases "loop_items_st context v b (length st) its (st @ [Strs []])")
          from loop_items_st_keeps[OF _ _ l, of n] assms(1)
          have k: "length (st @ [Strs []]) \<le> length st2 \<and> take n st2 = take n (st @ [Strs []])" by simp
          have "st' = st2"
            using its Some Inr Pair st0 g assms(2) l
            by (auto simp: replace_for_st_def bind_def ret_def subscript_def new_list_def get_strs_def
                split: sum.splits option.splits obj.splits)
          with k assms(1) show ?thesis by simp
        qed
      qed
    qed
  qed
qed

lemma replace_if_st_keeps:
  "replace_if_st context groups st = (r, st') \<Longrightarrow> st' = st"
  by (auto simp: replace_if_st_def bind_def get_dict_def raise_def ret_def
      split: option.splits obj.splits sum.splits)

lemma re_sub_st_keeps:
  assumes f: "\<And>caps st r st'. n \<le> length st \<Longrightarrow> f caps st = (r, st') \<Longrightarrow> length st \<le> length st' \<and> take n st' = take n st"
  shows "n \<le> length st \<Longrightarrow> re_sub_st p f s st = (r, st') \<Longrightarrow> length st \<le> length st' \<and> take n st' = take n st"
proof (induction s arbitrary: st r st' rule: length_induct)
  case (1 s)
  note IH = "1.IH"[rule_format]
  show ?case
  proof (cases "rx_match p s")
    case None
    show ?thesis
    proof (cases s)
      case Nil
      with None "1.prems" show ?thesis by (simp add: re_sub_st.simps[of p f "[]"])
    next
      case (Cons c cs)
      obtain r1 st1 where rec: "re_sub_st p f cs st = (r1, st1)" by (cases "re_sub_st p f cs st")
      from IH[of cs st r1 st1] Cons "1.prems"(1) rec
      have "length st \<le> length st1 \<and> take n st1 = take n st" by simp
      moreover have "st' = st1" using None Cons rec "1.prems"(2)
        by (simp add: re_sub_st.simps[of p f "c # cs"])
      ultimately show ?thesis by simp
    qed
  next
    case (Some a)
    obtain caps rest where a: "a = (caps, rest)" by (cases a)
    obtain x st0 where fx: "f caps st = (x, st0)" by (cases "f caps st")
    from f[OF "1.prems"(1) fx] have k0: "length st \<le> length st0 \<and> take n st0 = take n st" .
    then have n0: "n \<le> length st0" using "1.prems"(1) by simp
    show ?thesis
    proof (cases x)
      case (Inl e)
      with Some a fx "1.prems"(2) have "st' = st0" by (simp add: re_sub_st.simps[of p f s])
      with k0 show ?thesis by simp
    next
      case (Inr out)
      show ?thesis
      proof (cases "length rest < length s")
        case True
        obtain r1 st1 where rec: "re_sub_st p f rest st0 = (r1, st1)" by (cases "re_sub_st p f rest st0")
        from IH[of rest st0 r1 st1] True n0 rec
        have "length st0 \<le> length st1 \<and> take n st1 = take n st0" by simp
        moreover have "st' = st1" using Some a fx Inr True rec "1.prems"(2)
          by (simp add: re_sub_st.simps[of p f s])
        ultimately show ?thesis using k0 by simp
      next
        case False
        show ?thesis
        proof (cases s)
          case Nil
          with Some a fx Inr False "1.prems"(2) have "st' = st0"
            by (simp add: re_sub_st.simps[of p f "[]"])
          with k0 show ?thesis by simp
        next
          case (Cons c cs)
          obtain r1 st1 where rec: "re_sub_st p f cs st0 = (r1, st1)" by (cases "re_sub_st p f cs st0")
          from IH[of cs st0 r1 st1] Cons n0 rec
          have "length st0 \<le> length st1 \<and> take n st1 = take n st0" by simp
          moreover have "st' = st1" using Some a fx Inr False Cons rec "1.prems"(2)
            by (simp add: re_sub_st.simps[of p f "c # cs"])
          ultimately show ?thesis using k0 by simp
        qed
      qed
    qed
  qed
qed

text \<open>
  C8: \<open>render\<close> has no effect on its inputs. Every object that the store holds before
  the call, the context dictionary with the sequences and records in it among them, is
  the same after the call; the call only adds objects (the copies of the context and
  the local lists).
\<close>

theorem render_st_frame:
  assumes "render_st context template st = (r, st')"
  shows "length st \<le> length st' \<and> take (length st) st' = st"
proof (cases "get_dict context st")
  case (Pair x st0)
  then have st0: "st0 = st" by (auto simp: get_dict_def split: option.splits obj.splits)
  show ?thesis
  proof (cases x)
    case (Inl e)
    with Pair st0 assms show ?thesis by (simp add: render_st_def bind_def)
  next
    case (Inr c)
    obtain x1 st1 where 1: "re_sub_st for_pattern (replace_for_st context) (substitute_variables c template) st = (x1, st1)"
      by (cases "re_sub_st for_pattern (replace_for_st context) (substitute_variables c template) st")
    have k1: "length st \<le> length st1 \<and> take (length st) st1 = take (length st) st"
      by (rule re_sub_st_keeps[OF _ _ 1]) (auto dest: replace_for_st_keeps)
    show ?thesis
    proof (cases x1)
      case (Inl e)
      with Pair st0 Inr 1 assms have "st' = st1" by (simp add: render_st_def bind_def)
      with k1 show ?thesis by simp
    next
      case r1: (Inr r1)
      obtain x2 st2 where 2: "re_sub_st if_pattern (replace_if_st context) r1 st1 = (x2, st2)"
        by (cases "re_sub_st if_pattern (replace_if_st context) r1 st1")
      have k2: "length st1 \<le> length st2 \<and> take (length st) st2 = take (length st) st1"
        by (rule re_sub_st_keeps[OF _ _ 2]) (use k1 in \<open>auto dest: replace_if_st_keeps\<close>)
      have "st' = st2" using Pair st0 Inr 1 r1 2 assms
        by (cases x2) (simp_all add: render_st_def bind_def)
      with k1 k2 show ?thesis by simp
    qed
  qed
qed

text \<open>The result of the call is the one of \<open>render\<close> on the dictionary at the address.\<close>

lemma loop_items_st_result:
  "object_at st context = Some (Dict c) \<Longrightarrow> object_at st output = Some (Strs xs) \<Longrightarrow>
   \<exists>st'. loop_items_st context v b output items st = (Inr (), st') \<and>
     object_at st' output = Some (Strs (xs @ map (loop_item v b) items)) \<and>
     object_at st' context = Some (Dict c)"
proof (induction items arbitrary: st xs)
  case Nil
  then show ?case by (simp add: ret_def)
next
  case (Cons item items)
  from Cons.prems have ne: "context \<noteq> output" by auto
  from Cons.prems have lt: "context < length st" "output < length st"
    by (auto simp: object_at_def split: if_splits)
  define st1 where "st1 = (st @ [Dict c])[length st := Dict (dict_set v item c)]"
  define st2 where "st2 = st1[output := Strs (xs @ [loop_item v b item])]"
  have c1: "object_at st1 context = Some (Dict c)" and o1: "object_at st1 output = Some (Strs xs)"
    using Cons.prems lt by (auto simp: object_at_def st1_def nth_append split: if_splits)
  have c2: "object_at st2 context = Some (Dict c)"
    and o2: "object_at st2 output = Some (Strs (xs @ [loop_item v b item]))"
    using c1 o1 ne by (auto simp: object_at_def st2_def split: if_splits)
  have step: "loop_items_st context v b output (item # items) st
      = loop_items_st context v b output items st2"
    using Cons.prems(1) o1
    by (simp add: bind_def copy_dict_def set_item_def append_str_def object_at_def st1_def st2_def)
  from Cons.IH[OF c2 o2] step show ?case by simp
qed

lemma replace_for_st_result:
  assumes "object_at st context = Some (Dict c)"
  shows "\<exists>st'. replace_for_st context groups st = (replace_for c groups, st') \<and>
           object_at st' context = Some (Dict c)"
proof (cases "\<exists>v l b. groups = [v, l, b]")
  case False
  then have "replace_for_st context groups st = (Inl IndexError, st)"
    and "replace_for c groups = Inl IndexError"
    by (auto simp: replace_for_st_def replace_for_def raise_def split: list.splits)
  with assms show ?thesis by simp
next
  case True
  then obtain v l b where g: "groups = [v, l, b]" by blast
  have gd: "get_dict context st = (Inr c, st)" using assms by (simp add: get_dict_def)
  show ?thesis
  proof (cases "map_of c l")
    case None
    with g gd assms show ?thesis by (simp add: replace_for_st_def replace_for_def bind_def ret_def)
  next
    case (Some items)
    show ?thesis
    proof (cases "\<exists>its. items = PList its")
      case False
      with Some g gd assms show ?thesis
        by (cases items) (simp_all add: replace_for_st_def replace_for_def bind_def ret_def subscript_def)
    next
      case True
      then obtain its where its: "items = PList its" by blast
      from assms have lt: "context < length st" by (auto simp: object_at_def split: if_splits)
      have c0: "object_at (st @ [Strs []]) context = Some (Dict c)"
        and o0: "object_at (st @ [Strs []]) (length st) = Some (Strs [])"
        using assms lt by (auto simp: object_at_def nth_append)
      from loop_items_st_result[OF c0 o0, of v b its] obtain st' where
        l: "loop_items_st context v b (length st) its (st @ [Strs []]) = (Inr (), st')"
        and o: "object_at st' (length st) = Some (Strs (map (loop_item v b) its))"
        and c: "object_at st' context = Some (Dict c)" by auto
      have "replace_for_st context groups st = (Inr (concat (map (loop_item v b) its)), st')"
        using g gd Some its l o
        by (simp add: replace_for_st_def bind_def ret_def subscript_def new_list_def get_strs_def)
      moreover have "replace_for c groups = Inr (concat (map (loop_item v b) its))"
        using g Some its by (simp add: replace_for_def subscript_def)
      ultimately show ?thesis using c by simp
    qed
  qed
qed

lemma replace_if_st_result:
  assumes "object_at st context = Some (Dict c)"
  shows "\<exists>st'. replace_if_st context groups st = (replace_if c groups, st') \<and>
           object_at st' context = Some (Dict c)"
  using assms
  by (cases "replace_if c groups") (simp_all add: replace_if_st_def bind_def get_dict_def raise_def ret_def)

lemma re_sub_st_result:
  assumes f: "\<And>caps st. I st \<Longrightarrow> \<exists>st'. g caps st = (f caps, st') \<and> I st'"
  shows "I st \<Longrightarrow> \<exists>st'. re_sub_st p g s st = (re_sub p f s, st') \<and> I st'"
proof (induction s arbitrary: st rule: length_induct)
  case (1 s)
  note IH = "1.IH"[rule_format]
  show ?case
  proof (cases "rx_match p s")
    case None
    show ?thesis
    proof (cases s)
      case Nil
      with None "1.prems" show ?thesis
        by (simp add: re_sub_st.simps[of p g "[]"] re_sub.simps[of p f "[]"])
    next
      case (Cons c cs)
      from IH[of cs st] Cons "1.prems" obtain st1 where
        "re_sub_st p g cs st = (re_sub p f cs, st1)" "I st1" by auto
      with None Cons show ?thesis
        by (simp add: re_sub_st.simps[of p g "c # cs"] re_sub.simps[of p f "c # cs"])
    qed
  next
    case (Some a)
    obtain caps rest where a: "a = (caps, rest)" by (cases a)
    from f[OF "1.prems", of caps] obtain st0 where fx: "g caps st = (f caps, st0)" and i0: "I st0"
      by auto
    show ?thesis
    proof (cases "f caps")
      case (Inl e)
      with Some a fx i0 show ?thesis
        by (simp add: re_sub_st.simps[of p g s] re_sub.simps[of p f s])
    next
      case (Inr out)
      show ?thesis
      proof (cases "length rest < length s")
        case True
        from IH[of rest st0] True i0 obtain st1 where
          "re_sub_st p g rest st0 = (re_sub p f rest, st1)" "I st1" by auto
        with Some a fx Inr True show ?thesis
          by (simp add: re_sub_st.simps[of p g s] re_sub.simps[of p f s])
      next
        case False
        show ?thesis
        proof (cases s)
          case Nil
          with Some a fx Inr False i0 show ?thesis
            by (simp add: re_sub_st.simps[of p g "[]"] re_sub.simps[of p f "[]"])
        next
          case (Cons c cs)
          from IH[of cs st0] Cons i0 obtain st1 where
            "re_sub_st p g cs st0 = (re_sub p f cs, st1)" "I st1" by auto
          with Some a fx Inr False Cons show ?thesis
            by (simp add: re_sub_st.simps[of p g "c # cs"] re_sub.simps[of p f "c # cs"])
        qed
      qed
    qed
  qed
qed

lemma render_st_result:
  assumes "object_at st context = Some (Dict c)"
  shows "fst (render_st context template st) = render template c"
proof -
  let ?I = "\<lambda>st. object_at st context = Some (Dict c)"
  have gd: "get_dict context st = (Inr c, st)" using assms by (simp add: get_dict_def)
  from re_sub_st_result[of ?I "replace_for_st context" "replace_for c" st for_pattern
      "substitute_variables c template"] replace_for_st_result assms
  obtain st1 where 1: "re_sub_st for_pattern (replace_for_st context) (substitute_variables c template) st
      = (re_sub for_pattern (replace_for c) (substitute_variables c template), st1)" and i1: "?I st1"
    by blast
  show ?thesis
  proof (cases "re_sub for_pattern (replace_for c) (substitute_variables c template)")
    case (Inl e)
    with gd 1 show ?thesis by (simp add: render_st_def render_def bind_def)
  next
    case (Inr r1)
    from re_sub_st_result[of ?I "replace_if_st context" "replace_if c" st1 if_pattern r1]
      replace_if_st_result i1
    obtain st2 where 2: "re_sub_st if_pattern (replace_if_st context) r1 st1
      = (re_sub if_pattern (replace_if c) r1, st2)" by blast
    show ?thesis using gd 1 Inr 2
      by (cases "re_sub if_pattern (replace_if c) r1") (simp_all add: render_st_def render_def bind_def)
  qed
qed

theorem render_st_frame_witness:
  "render_st 0 ''{% for v in L %}{{ v }}{% endfor %}'' [Dict [(''L'', PList [PInt 1, PInt 2])]]
     = (Inr ''12'',
        [Dict [(''L'', PList [PInt 1, PInt 2])], Strs [''1'', ''2''],
         Dict [(''L'', PList [PInt 1, PInt 2]), (''v'', PInt 1)],
         Dict [(''L'', PList [PInt 1, PInt 2]), (''v'', PInt 2)]]) \<and>
   take (length [Dict [(''L'', PList [PInt 1, PInt 2])]])
        [Dict [(''L'', PList [PInt 1, PInt 2])], Strs [''1'', ''2''],
         Dict [(''L'', PList [PInt 1, PInt 2]), (''v'', PInt 1)],
         Dict [(''L'', PList [PInt 1, PInt 2]), (''v'', PInt 2)]]
     = [Dict [(''L'', PList [PInt 1, PInt 2])]]"
proof -
  have h: "render_st 0 ''{% for v in L %}{{ v }}{% endfor %}'' [Dict [(''L'', PList [PInt 1, PInt 2])]]
     = (Inr ''12'',
        [Dict [(''L'', PList [PInt 1, PInt 2])], Strs [''1'', ''2''],
         Dict [(''L'', PList [PInt 1, PInt 2]), (''v'', PInt 1)],
         Dict [(''L'', PList [PInt 1, PInt 2]), (''v'', PInt 2)]])"
    by code_simp
  from render_st_frame [OF h] h show ?thesis by simp
qed

section \<open>Determinism\<close>

text \<open>
  C7: \<open>render\<close> is deterministic. Two calls with the same template, each on a context
  dictionary of the same content, return the same result, wherever the dictionaries are
  stored and whatever else the two stores hold, such as the objects that an earlier
  call has left behind. The source reads no clock, no random source and no state of
  the process; the content of a dictionary includes the order of its keys.
\<close>

theorem render_deterministic:
  "object_at st1 a1 = Some (Dict c) \<Longrightarrow> object_at st2 a2 = Some (Dict c) \<Longrightarrow>
   fst (render_st a1 template st1) = fst (render_st a2 template st2)"
  by (simp add: render_st_result)

theorem render_deterministic_witness:
  "object_at [Dict [(''L'', PList [PInt 1, PInt 2])]] 0 = Some (Dict [(''L'', PList [PInt 1, PInt 2])]) \<and>
   object_at [Strs [''1'', ''2''], Dict [(''L'', PList [PInt 1, PInt 2])],
              Dict [(''L'', PList [PInt 1, PInt 2]), (''v'', PInt 2)]] 1
     = Some (Dict [(''L'', PList [PInt 1, PInt 2])]) \<and>
   fst (render_st 0 ''{% for v in L %}{{ v }}{% endfor %}'' [Dict [(''L'', PList [PInt 1, PInt 2])]])
     = fst (render_st 1 ''{% for v in L %}{{ v }}{% endfor %}''
              [Strs [''1'', ''2''], Dict [(''L'', PList [PInt 1, PInt 2])],
               Dict [(''L'', PList [PInt 1, PInt 2]), (''v'', PInt 2)]])"
proof -
  have 1: "object_at [Dict [(''L'', PList [PInt 1, PInt 2])]] 0
      = Some (Dict [(''L'', PList [PInt 1, PInt 2])])"
    by (simp add: object_at_def)
  have 2: "object_at [Strs [''1'', ''2''], Dict [(''L'', PList [PInt 1, PInt 2])],
              Dict [(''L'', PList [PInt 1, PInt 2]), (''v'', PInt 2)]] 1
      = Some (Dict [(''L'', PList [PInt 1, PInt 2])])"
    by (simp add: object_at_def)
  from render_deterministic [OF 1 2] 1 2 show ?thesis by simp
qed

text \<open>
  The order of the keys is part of the context: two dictionaries with the same entries,
  inserted in a different order, can render differently, since the scalar pass works
  through the keys in insertion order.
\<close>

lemma render_key_order:
  "render ''{{ a }}'' [(''a'', PStr ''{{ b }}''), (''b'', PStr ''x'')] = Inr ''x'' \<and>
   render ''{{ a }}'' [(''b'', PStr ''x''), (''a'', PStr ''{{ b }}'')] = Inr []"
  by code_simp

section \<open>Symbolic matching\<close>

subsection \<open>Characters\<close>

lemma word_not_brace: "is_word c \<Longrightarrow> c \<noteq> CHR ''{''"
  by (auto simp: is_word_def)

lemma word_not_space: "is_word c \<Longrightarrow> \<not> is_space c"
  by (auto simp: is_word_def is_space_def Let_def)

lemma space_not_word: "\<not> is_word CHR '' ''"
  by (simp add: is_word_def)

lemma name_no_brace: "is_name s \<Longrightarrow> CHR ''{'' \<notin> set s"
  by (auto simp: is_name_def list_all_iff dest: word_not_brace)

subsection \<open>Adjacent pairs\<close>

lemma has_pair_Cons_neq [simp]: "x \<noteq> a \<Longrightarrow> has_pair a b (x # s) = has_pair a b s"
  by (cases s) auto

lemma has_pair_notin [simp]: "a \<notin> set s \<Longrightarrow> \<not> has_pair a b s"
  by (induction s) auto

lemma has_pair_skip [simp]: "a \<notin> set s \<Longrightarrow> has_pair a b (s @ t) = has_pair a b t"
  by (induction s) auto

subsection \<open>\<open>replace\<close> on text without an occurrence\<close>

lemma replace_from_no_pair:
  "\<not> has_pair a b s \<Longrightarrow> replace_from (a # b # old) new s = s"
proof (induction s)
  case Nil
  then show ?case by simp
next
  case (Cons c s)
  then have "\<not> starts_with (a # b # old) (c # s)"
    by (cases s) (auto simp: starts_with_def)
  moreover from Cons.prems have "\<not> has_pair a b s" by (cases s) auto
  ultimately show ?case using Cons.IH by simp
qed

lemma replace_no_pair:
  "\<not> has_pair a b s \<Longrightarrow> replace (a # b # old) new s = s"
  by (simp add: replace_def replace_from_no_pair)

lemma replace_from_skip_pair:
  "\<not> has_pair a b (A @ [x]) \<Longrightarrow>
   replace_from (a # b # old) new (A @ x # s) = A @ replace_from (a # b # old) new (x # s)"
proof (induction A)
  case Nil
  then show ?case by simp
next
  case (Cons c A)
  have "\<not> starts_with (a # b # old) (c # A @ x # s)"
    using Cons.prems by (cases A) (auto simp: starts_with_def)
  moreover from Cons.prems have "\<not> has_pair a b (A @ [x])" by (cases A) auto
  ultimately show ?case using Cons.IH by simp
qed

lemma replace_from_hit:
  "old \<noteq> [] \<Longrightarrow> replace_from old new (old @ s) = new @ replace_from old new s"
  by (cases old) (auto simp: starts_with_def)

subsection \<open>\<open>re.sub\<close> step by step\<close>

lemma re_sub_Nil: "re_sub (Lit c # q) f [] = Inr []"
  by (simp add: re_sub.simps[of _ _ "[]"])

lemma re_sub_miss:
  "rx_match p (x # s) = None \<Longrightarrow> re_sub p f s = Inr r \<Longrightarrow> re_sub p f (x # s) = Inr (x # r)"
  by (simp add: re_sub.simps[of p f "x # s"])

lemma re_sub_skip:
  "c \<notin> set a \<Longrightarrow> re_sub (Lit c # q) f b = Inr r \<Longrightarrow> re_sub (Lit c # q) f (a @ b) = Inr (a @ r)"
proof (induction a)
  case Nil
  then show ?case by simp
next
  case (Cons x a)
  then have "rx_match (Lit c # q) (x # a @ b) = None" by auto
  moreover from Cons have "re_sub (Lit c # q) f (a @ b) = Inr (a @ r)" by simp
  ultimately show ?case by (simp only: append_Cons re_sub_miss)
qed

lemma re_sub_plain:
  "c \<notin> set a \<Longrightarrow> re_sub (Lit c # q) f a = Inr a"
  using re_sub_skip[of c a q f "[]" "[]"] by (simp add: re_sub_Nil)

lemma re_sub_hit:
  "rx_match p s = Some (caps, rest) \<Longrightarrow> f caps = Inr out \<Longrightarrow> length rest < length s \<Longrightarrow>
   re_sub p f rest = Inr r \<Longrightarrow> re_sub p f s = Inr (out @ r)"
  by (simp add: re_sub.simps[of p f s])

subsection \<open>The matcher on text with unknown parts\<close>

lemma rx_match_Lit_Cons: "rx_match (Lit c # p) (x # s) = (if x = c then rx_match p s else None)"
  by simp

lemma rx_match_Lit_Nil: "rx_match (Lit c # p) [] = None"
  by simp

lemma rx_match_Rep:
  "rx_match (Rep g cap cl n # p) s =
     (case (if g then greedy_rep cl n (rx_match p) s else lazy_rep cl n (rx_match p) s) of
        None \<Rightarrow> None
      | Some (t, (caps, rest)) \<Rightarrow> Some (if cap then t # caps else caps, rest))"
  by simp

declare rx_match.simps(2) [simp del] rx_item.simps [simp del]
declare rx_match_Lit_Cons [simp] rx_match_Lit_Nil [simp]

lemma greedy_rep_take:
  "list_all (in_cls cl) w \<Longrightarrow> n \<le> length w \<Longrightarrow> k s = Some r \<Longrightarrow>
   (case s of [] \<Rightarrow> True | x # xs \<Rightarrow> \<not> in_cls cl x) \<Longrightarrow>
   greedy_rep cl n k (w @ s) = Some (w, r)"
proof (induction w arbitrary: n)
  case Nil
  then show ?case by (cases s) auto
next
  case (Cons c w)
  from Cons.prems have "greedy_rep cl (n - 1) k (w @ s) = Some (w, r)"
    by (intro Cons.IH) auto
  with Cons.prems show ?case by simp
qed

lemma lazy_rep_skip:
  assumes k: "\<And>x s. x \<noteq> c \<Longrightarrow> k (x # s) = None"
  shows "c \<notin> set a \<Longrightarrow> list_all (in_cls cl) a \<Longrightarrow>
   lazy_rep cl 0 k (a @ t) = map_option (\<lambda>(x, r). (a @ x, r)) (lazy_rep cl 0 k t)"
proof (induction a)
  case Nil
  show ?case by (simp add: option.map_ident case_prod_unfold)
next
  case (Cons x a)
  then have "k (x # a @ t) = None" using k by auto
  with Cons show ?case by (simp add: option.map_comp comp_def case_prod_unfold)
qed

lemma lazy_rep_miss:
  "k (x # s) = None \<Longrightarrow> in_cls cl x \<Longrightarrow>
   lazy_rep cl 0 k (x # s) = map_option (\<lambda>(t, r). (x # t, r)) (lazy_rep cl 0 k s)"
  by simp

lemma lazy_rep_here:
  "k s = Some r \<Longrightarrow> lazy_rep cl 0 k s = Some ([], r)"
  by (cases s) auto

lemma rx_match_lits:
  "rx_match p s = r \<Longrightarrow> rx_match (lits w @ p) (w @ s) = r"
  by (induction w) (auto simp: lits_def)

lemma rx_match_greedy:
  "list_all (in_cls cl) w \<Longrightarrow> n \<le> length w \<Longrightarrow> s = [] \<or> \<not> in_cls cl (hd s) \<Longrightarrow>
   rx_match p s = Some (caps, rest) \<Longrightarrow>
   rx_match (Rep True False cl n # p) (w @ s) = Some (caps, rest)"
  using greedy_rep_take[of cl w n "rx_match p" s "(caps, rest)"]
  by (cases s) (auto simp: rx_match_Rep)

lemma rx_match_greedy_group:
  "list_all (in_cls cl) w \<Longrightarrow> n \<le> length w \<Longrightarrow> s = [] \<or> \<not> in_cls cl (hd s) \<Longrightarrow>
   rx_match p s = Some (caps, rest) \<Longrightarrow>
   rx_match (Rep True True cl n # p) (w @ s) = Some (w # caps, rest)"
  using greedy_rep_take[of cl w n "rx_match p" s "(caps, rest)"]
  by (cases s) (auto simp: rx_match_Rep)

lemma lazy_rep_find:
  assumes "c \<notin> set a" "list_all (in_cls cl) a" "rx_match (Lit c # q) t = Some r"
  shows "lazy_rep cl 0 (rx_match (Lit c # q)) (a @ t) = Some (a, r)"
proof -
  have "lazy_rep cl 0 (rx_match (Lit c # q)) (a @ t)
      = map_option (\<lambda>(x, r). (a @ x, r)) (lazy_rep cl 0 (rx_match (Lit c # q)) t)"
    by (rule lazy_rep_skip) (use assms in auto)
  also have "lazy_rep cl 0 (rx_match (Lit c # q)) t = Some ([], r)"
    by (rule lazy_rep_here) (rule assms(3))
  finally show ?thesis by simp
qed

lemma rx_match_lazy_group:
  assumes "c \<notin> set a" "list_all (in_cls cl) a" "rx_match (Lit c # q) t = Some (caps, rest)"
  shows "rx_match (Rep False True cl 0 # Lit c # q) (a @ t) = Some (a # caps, rest)"
  using lazy_rep_find[OF assms] by (simp add: rx_match_Rep)

lemma rx_match_lazy:
  assumes "c \<notin> set a" "list_all (in_cls cl) a" "rx_match (Lit c # q) t = Some (caps, rest)"
  shows "rx_match (Rep False False cl 0 # Lit c # q) (a @ t) = Some (caps, rest)"
  using lazy_rep_find[OF assms] by (simp add: rx_match_Rep)

lemma name_hd: "is_name c \<Longrightarrow> \<not> is_space (hd c)"
  by (cases c) (auto simp: is_name_def dest: word_not_space)

lemma name_word: "is_name c \<Longrightarrow> list_all (in_cls Word) c"
  by (simp add: is_name_def list_all_iff)

lemma one_space: "list_all (in_cls Space) '' ''"
  by (simp add: is_space_def)

lemma if_pattern_alt:
  "if_pattern = lits ''{%'' @ Rep True False Space 0 # lits ''if'' @
     Rep True False Space 1 # Rep True True Word 1 # Rep True False Space 0 # lits ''%}'' @
     Rep False True DotAll 0 # lits ''{%'' @ Rep True False Space 0 # lits ''endif'' @
     Rep True False Space 0 # lits ''%}'' @ []"
  by (simp add: if_pattern_def)

lemma endif_match:
  "rx_match (lits ''{%'' @ Rep True False Space 0 # lits ''endif'' @
     Rep True False Space 0 # lits ''%}'' @ []) (''{%'' @ '' '' @ ''endif'' @ '' '' @ ''%}'' @ post)
     = Some ([], post)"
  apply (rule rx_match_lits)
  apply (rule rx_match_greedy)
     apply (rule one_space)
    apply simp
   apply (simp add: is_space_def)
  apply (rule rx_match_lits)
  apply (rule rx_match_greedy)
     apply (rule one_space)
    apply simp
   apply (simp add: is_space_def)
  apply (rule rx_match_lits)
  apply simp
  done

lemma if_match:
  assumes "is_name c" "CHR ''{'' \<notin> set body"
  shows "rx_match if_pattern (''{% if '' @ c @ '' %}'' @ body @ ''{% endif %}'' @ post)
         = Some ([c, body], post)"
proof -
  have body: "rx_match (Rep False True DotAll 0 # lits ''{%'' @ Rep True False Space 0 # lits ''endif'' @
     Rep True False Space 0 # lits ''%}'' @ []) (body @ ''{%'' @ '' '' @ ''endif'' @ '' '' @ ''%}'' @ post)
     = Some ([body], post)"
    using rx_match_lazy_group[of "CHR ''{''" body DotAll _ _ "[]" post] endif_match[of post] assms(2)
    by (simp add: lits_def list_all_iff)
  have "rx_match (lits ''{%'' @ Rep True False Space 0 # lits ''if'' @
     Rep True False Space 1 # Rep True True Word 1 # Rep True False Space 0 # lits ''%}'' @
     Rep False True DotAll 0 # lits ''{%'' @ Rep True False Space 0 # lits ''endif'' @
     Rep True False Space 0 # lits ''%}'' @ [])
     (''{%'' @ '' '' @ ''if'' @ '' '' @ c @ '' '' @ ''%}'' @ body @ ''{%'' @ '' '' @ ''endif'' @ '' '' @ ''%}'' @ post)
     = Some ([c, body], post)"
    apply (rule rx_match_lits)
    apply (rule rx_match_greedy)
       apply (rule one_space)
      apply simp
     apply (simp add: is_space_def)
    apply (rule rx_match_lits)
    apply (rule rx_match_greedy)
       apply (rule one_space)
      apply simp
     apply (use assms(1) name_hd[OF assms(1)] in \<open>simp add: is_name_def\<close>)
    apply (rule rx_match_greedy_group)
       apply (rule name_word[OF assms(1)])
      apply (use assms(1) in \<open>simp add: is_name_def Suc_le_eq\<close>)
     apply (simp add: is_word_def)
    apply (rule rx_match_greedy)
       apply (rule one_space)
      apply simp
     apply (simp add: is_space_def)
    apply (rule rx_match_lits)
    apply (rule body)
    done
  then show ?thesis by (simp add: if_pattern_alt)
qed

lemma substitute_no_pair:
  "\<not> has_pair CHR ''{'' CHR ''{'' t \<Longrightarrow> substitute_variables c t = t"
proof (induction c)
  case Nil
  then show ?case by (simp add: substitute_variables_def)
next
  case (Cons kv c)
  obtain k v where kv: "kv = (k, v)" by (cases kv)
  have "replace (''{{ '' @ k @ '' }}'') (py_str v) t = t"
    using replace_no_pair[OF Cons.prems, of "CHR '' '' # k @ '' }}''"] by simp
  with Cons kv show ?case by (simp add: substitute_variables_def)
qed

lemma for_pattern_Lit: "\<exists>q. for_pattern = Lit CHR ''{'' # q"
  by (simp add: for_pattern_def lits_def)

lemma if_pattern_Lit: "\<exists>q. if_pattern = Lit CHR ''{'' # q"
  by (simp add: if_pattern_def lits_def)

lemma tag_pattern_Lit: "\<exists>q. tag_pattern = Lit CHR ''{'' # q"
  by (simp add: tag_pattern_def lits_def)

lemma var_pattern_Lit: "\<exists>q. var_pattern = Lit CHR ''{'' # q"
  by (simp add: var_pattern_def lits_def)

lemma cleanup_plain:
  assumes "CHR ''{'' \<notin> set s"
  shows "cleanup s = Inr s"
proof -
  obtain q where q: "tag_pattern = Lit CHR ''{'' # q" using tag_pattern_Lit by blast
  obtain q' where q': "var_pattern = Lit CHR ''{'' # q'" using var_pattern_Lit by blast
  show ?thesis using assms by (simp add: cleanup_def q q' re_sub_plain)
qed

lemma for_miss_if: "rx_match for_pattern (''{% if '' @ s) = None"
  by (simp add: for_pattern_def lits_def rx_match_Rep is_space_def)

lemma for_miss_endif: "rx_match for_pattern (''{% endif %}'' @ s) = None"
  by (simp add: for_pattern_def lits_def rx_match_Rep is_space_def)

lemma re_sub_miss_skip:
  "rx_match (Lit c # q) (c # a @ b) = None \<Longrightarrow> c \<notin> set a \<Longrightarrow>
   re_sub (Lit c # q) f b = Inr r \<Longrightarrow> re_sub (Lit c # q) f (c # a @ b) = Inr (c # a @ r)"
  by (simp add: re_sub_miss re_sub_skip)

lemma for_stage_if_block:
  assumes "CHR ''{'' \<notin> set pre" "CHR ''{'' \<notin> set c" "CHR ''{'' \<notin> set body" "CHR ''{'' \<notin> set post"
  shows "re_sub for_pattern f (pre @ ''{% if '' @ c @ '' %}'' @ body @ ''{% endif %}'' @ post)
       = Inr (pre @ ''{% if '' @ c @ '' %}'' @ body @ ''{% endif %}'' @ post)"
proof -
  obtain q where q: "for_pattern = Lit CHR ''{'' # q" using for_pattern_Lit by blast
  have 1: "re_sub for_pattern f (''{% endif %}'' @ post) = Inr (''{% endif %}'' @ post)"
    using re_sub_miss_skip[of "CHR ''{''" q "''% endif %}'' @ post" "[]" f "[]"]
      for_miss_endif[of post] assms(4)
    by (simp add: q re_sub_Nil)
  have 2: "re_sub for_pattern f (''{% if '' @ c @ '' %}'' @ body @ ''{% endif %}'' @ post)
      = Inr (''{% if '' @ c @ '' %}'' @ body @ ''{% endif %}'' @ post)"
    using re_sub_miss_skip[of "CHR ''{''" q "''% if '' @ c @ '' %}'' @ body" "''{% endif %}'' @ post" f
        "''{% endif %}'' @ post"]
      for_miss_if[of "c @ '' %}'' @ body @ ''{% endif %}'' @ post"] assms(2,3) 1
    by (simp add: q)
  show ?thesis
    using re_sub_skip[of "CHR ''{''" pre q f _ _, OF assms(1) 2[unfolded q]] by (simp add: q)
qed

lemma replace_if_value:
  "replace_if ctx [c, body] =
     Inr (case map_of ctx c of None \<Rightarrow> [] | Some v \<Rightarrow> if py_truthy v then body else [])"
  by (simp add: replace_if_def subscript_def split: option.splits)


section \<open>Scalar references\<close>

lemma has_pair_append:
  "has_pair a b (s @ t) \<longleftrightarrow>
     has_pair a b s \<or> has_pair a b t \<or> (s \<noteq> [] \<and> t \<noteq> [] \<and> last s = a \<and> hd t = b)"
proof (induction s)
  case Nil
  then show ?case by simp
next
  case (Cons x s)
  show ?case
  proof (cases s)
    case Nil
    then show ?thesis by (cases t) (auto simp del: has_pair_Cons_neq)
  next
    case (Cons y s')
    with Cons.IH show ?thesis by (auto simp del: has_pair_Cons_neq)
  qed
qed

lemma has_pair_same_skip:
  "\<not> has_pair a a (A @ [a]) \<Longrightarrow> has_pair a a (A @ t) = has_pair a a t"
proof (induction A)
  case Nil
  then show ?case by simp
next
  case (Cons x A)
  show ?case
  proof (cases A)
    case Nil
    with Cons.prems show ?thesis by (cases t) (auto simp del: has_pair_Cons_neq)
  next
    case (Cons y A')
    with Cons.prems Cons.IH show ?thesis by (auto simp del: has_pair_Cons_neq)
  qed
qed

lemma re_sub_no_pair:
  "\<not> has_pair a b s \<Longrightarrow> re_sub (Lit a # Lit b # q) f s = Inr s"
proof (induction s)
  case Nil
  then show ?case by (simp add: re_sub_Nil)
next
  case (Cons x s)
  then have "rx_match (Lit a # Lit b # q) (x # s) = None" by (cases s) auto
  moreover from Cons.prems have "\<not> has_pair a b s" by (cases s) auto
  ultimately show ?case using Cons.IH by (simp add: re_sub_miss)
qed

lemma same_name:
  "list_all is_word k \<Longrightarrow> list_all is_word n \<Longrightarrow>
   starts_with (k @ CHR '' '' # r) (n @ CHR '' '' # r') \<Longrightarrow> k = n"
proof (induction k arbitrary: n)
  case Nil
  then show ?case by (cases n) (auto simp: starts_with_def space_not_word)
next
  case (Cons x k)
  show ?case
  proof (cases n)
    case Nil
    with Cons.prems show ?thesis by (auto simp: starts_with_def space_not_word)
  next
    case (Cons y n')
    with Cons.prems have "x = y" "starts_with (k @ CHR '' '' # r) (n' @ CHR '' '' # r')"
      by (auto simp: starts_with_def)
    with Cons.IH[of n'] Cons.prems Cons show ?thesis by simp
  qed
qed

lemma replace_directive_same:
  assumes "\<not> has_pair CHR ''{'' CHR ''{'' (A @ ''{'')" "\<not> has_pair CHR ''{'' CHR ''{'' B"
  shows "replace (''{{ '' @ name @ '' }}'') new (A @ ''{{ '' @ name @ '' }}'' @ B) = A @ new @ B"
proof -
  let ?old = "''{{ '' @ name @ '' }}''"
  have "replace_from ?old new (A @ CHR ''{'' # (''{ '' @ name @ '' }}'' @ B))
      = A @ replace_from ?old new (CHR ''{'' # (''{ '' @ name @ '' }}'' @ B))"
    using replace_from_skip_pair[OF assms(1), of "CHR '' '' # name @ '' }}''" new] by simp
  moreover have "replace_from ?old new (?old @ B) = new @ replace_from ?old new B"
    by (rule replace_from_hit) simp
  moreover have "replace_from ?old new B = B"
    using replace_from_no_pair[OF assms(2), of "CHR '' '' # name @ '' }}''" new] by simp
  ultimately show ?thesis by (simp add: replace_def)
qed

lemma replace_directive_other:
  assumes "\<not> has_pair CHR ''{'' CHR ''{'' (A @ ''{'')" "\<not> has_pair CHR ''{'' CHR ''{'' B"
    and "is_name k" "is_name name" "k \<noteq> name"
  shows "replace (''{{ '' @ k @ '' }}'') new (A @ ''{{ '' @ name @ '' }}'' @ B)
       = A @ ''{{ '' @ name @ '' }}'' @ B"
proof -
  let ?old = "''{{ '' @ k @ '' }}''"
  let ?rest = "''{ '' @ name @ '' }}'' @ B"
  have 1: "replace_from ?old new (A @ CHR ''{'' # ?rest) = A @ replace_from ?old new (CHR ''{'' # ?rest)"
    using replace_from_skip_pair[OF assms(1), of "CHR '' '' # k @ '' }}''" new] by simp
  have "\<not> starts_with (k @ CHR '' '' # ''}}'') (name @ CHR '' '' # ''}}'' @ B)"
    using same_name[of k name "''}}''" "''}}'' @ B"] assms(3,4,5) by (auto simp: is_name_def)
  then have 2: "\<not> starts_with ?old (CHR ''{'' # ?rest)"
    by (simp add: starts_with_def)
  have "\<not> has_pair CHR ''{'' CHR ''{'' ?rest"
    using assms(2) name_no_brace[OF assms(4)] by (simp add: has_pair_append)
  then have 3: "replace_from ?old new ?rest = ?rest"
    using replace_from_no_pair[of "CHR ''{''" "CHR ''{''" ?rest "CHR '' '' # k @ '' }}''" new] by simp
  from 1 2 3 show ?thesis by (simp add: replace_def)
qed

lemma substitute_directive:
  assumes "\<forall>k \<in> fst ` set ctx. is_name k" "is_name name"
    and "\<not> has_pair CHR ''{'' CHR ''{'' (A @ ''{'')" "\<not> has_pair CHR ''{'' CHR ''{'' B"
    and "\<And>v. map_of ctx name = Some v \<Longrightarrow> CHR ''{'' \<notin> set (py_str v)"
  shows "substitute_variables ctx (A @ ''{{ '' @ name @ '' }}'' @ B) =
     A @ (case map_of ctx name of None \<Rightarrow> ''{{ '' @ name @ '' }}'' | Some v \<Rightarrow> py_str v) @ B"
  using assms(1,5)
proof (induction ctx)
  case Nil
  then show ?case by (simp add: substitute_variables_def)
next
  case (Cons kv ctx)
  obtain k v where kv: "kv = (k, v)" by (cases kv)
  let ?T = "A @ ''{{ '' @ name @ '' }}'' @ B"
  have unfold: "substitute_variables (kv # ctx) ?T
      = substitute_variables ctx (replace (''{{ '' @ k @ '' }}'') (py_str v) ?T)"
    by (simp add: substitute_variables_def kv)
  show ?case
  proof (cases "k = name")
    case True
    have nb: "CHR ''{'' \<notin> set (py_str v)" using Cons.prems(2)[of v] True kv by simp
    have "replace (''{{ '' @ k @ '' }}'') (py_str v) ?T = A @ py_str v @ B"
      using replace_directive_same[OF assms(3,4)] True by simp
    moreover have "\<not> has_pair CHR ''{'' CHR ''{'' (A @ py_str v @ B)"
      using assms(3,4) nb by (simp add: has_pair_same_skip)
    ultimately show ?thesis using unfold True kv by (simp add: substitute_no_pair)
  next
    case False
    have "is_name k" using Cons.prems(1) kv by simp
    then have "replace (''{{ '' @ k @ '' }}'') (py_str v) ?T = ?T"
      using replace_directive_other[OF assms(3,4) _ assms(2) False] by simp
    moreover have "substitute_variables ctx ?T =
       A @ (case map_of ctx name of None \<Rightarrow> ''{{ '' @ name @ '' }}'' | Some v \<Rightarrow> py_str v) @ B"
      using Cons.prems False kv by (intro Cons.IH) auto
    ultimately show ?thesis using unfold False kv by simp
  qed
qed

lemma var_pattern_alt:
  "var_pattern = lits ''{{'' @ Rep False False Dot 0 # Lit CHR ''}'' # Lit CHR ''}'' # []"
  by (simp add: var_pattern_def lits_def)

lemma name_dot: "is_name n \<Longrightarrow> list_all (in_cls Dot) n \<and> CHR ''}'' \<notin> set n"
  by (auto simp: is_name_def list_all_iff is_word_def)

lemma var_match:
  assumes "is_name name"
  shows "rx_match var_pattern (''{{ '' @ name @ '' }}'' @ post) = Some ([], post)"
proof -
  have "rx_match (lits ''{{'' @ Rep False False Dot 0 # Lit CHR ''}'' # Lit CHR ''}'' # [])
      (''{{'' @ (CHR '' '' # name @ '' '') @ ''}}'' @ post) = Some ([], post)"
    apply (rule rx_match_lits)
    apply (rule rx_match_lazy)
    using name_dot[OF assms] apply simp
    using name_dot[OF assms] apply simp
    apply simp
    done
  then show ?thesis by (simp add: var_pattern_alt)
qed

lemma tags_pattern_alt:
  "\<exists>q. for_pattern = Lit CHR ''{'' # Lit CHR ''%'' # q"
  "\<exists>q. if_pattern = Lit CHR ''{'' # Lit CHR ''%'' # q"
  "\<exists>q. tag_pattern = Lit CHR ''{'' # Lit CHR ''%'' # q"
  by (simp_all add: for_pattern_def if_pattern_def tag_pattern_def lits_def)

lemma stages_no_tag:
  assumes "\<not> has_pair CHR ''{'' CHR ''%'' s"
  shows "re_sub for_pattern f s = Inr s" "re_sub if_pattern g s = Inr s"
    "re_sub tag_pattern h s = Inr s"
proof -
  obtain q1 q2 q3 where q: "for_pattern = Lit CHR ''{'' # Lit CHR ''%'' # q1"
    "if_pattern = Lit CHR ''{'' # Lit CHR ''%'' # q2" "tag_pattern = Lit CHR ''{'' # Lit CHR ''%'' # q3"
    using tags_pattern_alt by blast
  show "re_sub for_pattern f s = Inr s" unfolding q(1) by (rule re_sub_no_pair[OF assms])
  show "re_sub if_pattern g s = Inr s" unfolding q(2) by (rule re_sub_no_pair[OF assms])
  show "re_sub tag_pattern h s = Inr s" unfolding q(3) by (rule re_sub_no_pair[OF assms])
qed

lemma render_no_tag:
  "\<not> has_pair CHR ''{'' CHR ''%'' s \<Longrightarrow>
   render t ctx = re_sub var_pattern (\<lambda>_. Inr []) s" if "substitute_variables ctx t = s"
  using that by (simp add: render_def cleanup_def stages_no_tag)



section \<open>Conditional blocks: the examples\<close>


section \<open>Loop blocks\<close>

lemma for_pattern_alt:
  "for_pattern = lits ''{%'' @ Rep True False Space 0 # lits ''for'' @
     Rep True False Space 1 # Rep True True Word 1 # Rep True False Space 1 # lits ''in'' @
     Rep True False Space 1 # Rep True True Word 1 # Rep True False Space 0 # lits ''%}'' @
     Rep False True DotAll 0 # lits ''{%'' @ Rep True False Space 0 # lits ''endfor'' @
     Rep True False Space 0 # lits ''%}'' @ []"
  by (simp add: for_pattern_def)

lemma endfor_match:
  "rx_match (lits ''{%'' @ Rep True False Space 0 # lits ''endfor'' @
     Rep True False Space 0 # lits ''%}'' @ []) (''{%'' @ '' '' @ ''endfor'' @ '' '' @ ''%}'' @ post)
     = Some ([], post)"
  apply (rule rx_match_lits)
  apply (rule rx_match_greedy)
     apply (rule one_space)
    apply simp
   apply (simp add: is_space_def)
  apply (rule rx_match_lits)
  apply (rule rx_match_greedy)
     apply (rule one_space)
    apply simp
   apply (simp add: is_space_def)
  apply (rule rx_match_lits)
  apply simp
  done

text \<open>The opening tag of a loop, once the rest of the pattern matches behind it.\<close>

lemma for_match_body:
  assumes "is_name v" "is_name l"
    and "rx_match (Rep False True DotAll 0 # lits ''{%'' @ Rep True False Space 0 # lits ''endfor'' @
       Rep True False Space 0 # lits ''%}'' @ []) s = Some ([body], post)"
  shows "rx_match for_pattern (''{% for '' @ v @ '' in '' @ l @ '' %}'' @ s) = Some ([v, l, body], post)"
proof -
  have "rx_match (lits ''{%'' @ Rep True False Space 0 # lits ''for'' @
     Rep True False Space 1 # Rep True True Word 1 # Rep True False Space 1 # lits ''in'' @
     Rep True False Space 1 # Rep True True Word 1 # Rep True False Space 0 # lits ''%}'' @
     Rep False True DotAll 0 # lits ''{%'' @ Rep True False Space 0 # lits ''endfor'' @
     Rep True False Space 0 # lits ''%}'' @ [])
     (''{%'' @ '' '' @ ''for'' @ '' '' @ v @ '' '' @ ''in'' @ '' '' @ l @ '' '' @ ''%}'' @ s)
     = Some ([v, l, body], post)"
    apply (rule rx_match_lits)
    apply (rule rx_match_greedy)
       apply (rule one_space)
      apply simp
     apply (simp add: is_space_def)
    apply (rule rx_match_lits)
    apply (rule rx_match_greedy)
       apply (rule one_space)
      apply simp
     apply (use assms(1) name_hd[OF assms(1)] in \<open>simp add: is_name_def\<close>)
    apply (rule rx_match_greedy_group)
       apply (rule name_word[OF assms(1)])
      apply (use assms(1) in \<open>simp add: is_name_def Suc_le_eq\<close>)
     apply (simp add: is_word_def)
    apply (rule rx_match_greedy)
       apply (rule one_space)
      apply simp
     apply (simp add: is_space_def)
    apply (rule rx_match_lits)
    apply (rule rx_match_greedy)
       apply (rule one_space)
      apply simp
     apply (use assms(2) name_hd[OF assms(2)] in \<open>simp add: is_name_def\<close>)
    apply (rule rx_match_greedy_group)
       apply (rule name_word[OF assms(2)])
      apply (use assms(2) in \<open>simp add: is_name_def Suc_le_eq\<close>)
     apply (simp add: is_word_def)
    apply (rule rx_match_greedy)
       apply (rule one_space)
      apply simp
     apply (simp add: is_space_def)
    apply (rule rx_match_lits)
    apply (rule assms(3))
    done
  then show ?thesis by (simp add: for_pattern_alt)
qed

lemma for_match:
  assumes "is_name v" "is_name l" "CHR ''{'' \<notin> set body"
  shows "rx_match for_pattern
           (''{% for '' @ v @ '' in '' @ l @ '' %}'' @ body @ ''{% endfor %}'' @ post)
         = Some ([v, l, body], post)"
proof -
  have "rx_match (Rep False True DotAll 0 # lits ''{%'' @ Rep True False Space 0 # lits ''endfor'' @
       Rep True False Space 0 # lits ''%}'' @ []) (body @ ''{% endfor %}'' @ post) = Some ([body], post)"
    using rx_match_lazy_group[of "CHR ''{''" body DotAll _ _ "[]" post] endfor_match[of post] assms(3)
    by (simp add: lits_def list_all_iff)
  from for_match_body[OF assms(1,2) this] show ?thesis .
qed

lemma fold_replace_no_pair:
  assumes "\<not> has_pair CHR ''{'' CHR ''{'' body"
  shows "fold (\<lambda>(k, w) r. replace (''{{ '' @ v @ ''.'' @ py_str k @ '' }}'') (py_str w) r) kvs body
       = body"
  by (induction kvs) (auto simp: replace_no_pair[OF assms])

lemma loop_item_no_pair:
  assumes "\<not> has_pair CHR ''{'' CHR ''{'' body"
  shows "loop_item v body item = body"
  using fold_replace_no_pair[OF assms, of v]
  by (cases item) (simp_all add: loop_item_def replace_no_pair[OF assms])

lemma replace_for_list:
  "map_of ctx l = Some (PList items) \<Longrightarrow>
   replace_for ctx [v, l, body] = Inr (concat (map (loop_item v body) items))"
  by (simp add: replace_for_def subscript_def)



section \<open>Nested blocks\<close>

lemma rx_lazy_here:
  assumes "rx_match (Lit c # q) t = Some ([], post)"
  shows "rx_match (Rep False True DotAll 0 # Lit c # q) t = Some ([[]], post)"
  using rx_match_lazy_group[of c "[]" DotAll q t "[]" post] assms by simp

lemma rx_lazy_miss_skip:
  assumes "rx_match (Lit c # q) (c # a @ t) = None" "c \<notin> set a"
    and "rx_match (Rep False True DotAll 0 # Lit c # q) t = Some ([b], post)"
  shows "rx_match (Rep False True DotAll 0 # Lit c # q) (c # a @ t) = Some ([c # a @ b], post)"
proof -
  let ?k = "rx_match (Lit c # q)"
  from assms(3) have t: "lazy_rep DotAll 0 ?k t = Some (b, ([], post))"
    by (auto simp: rx_match_Rep split: option.splits)
  have "lazy_rep DotAll 0 ?k (c # a @ t)
      = map_option (\<lambda>(x, r). (c # x, r)) (lazy_rep DotAll 0 ?k (a @ t))"
    using assms(1) by (intro lazy_rep_miss) simp_all
  also have "lazy_rep DotAll 0 ?k (a @ t) = map_option (\<lambda>(x, r). (a @ x, r)) (lazy_rep DotAll 0 ?k t)"
    by (rule lazy_rep_skip) (use assms(2) in \<open>auto simp: list_all_iff\<close>)
  finally show ?thesis using t by (simp add: rx_match_Rep)
qed

text \<open>Tags that a pattern does not match.\<close>

lemma for_miss_endfor: "rx_match for_pattern (''{% endfor %}'' @ s) = None"
  by (simp add: for_pattern_def lits_def rx_match_Rep is_space_def)

lemma if_miss_for: "rx_match if_pattern (''{% for '' @ s) = None"
  by (simp add: if_pattern_def lits_def rx_match_Rep is_space_def)

lemma if_miss_endfor: "rx_match if_pattern (''{% endfor %}'' @ s) = None"
  by (simp add: if_pattern_def lits_def rx_match_Rep is_space_def)

lemma if_miss_endif: "rx_match if_pattern (''{% endif %}'' @ s) = None"
  by (simp add: if_pattern_def lits_def rx_match_Rep is_space_def)

lemma endfor_miss_if:
  "rx_match (lits ''{%'' @ Rep True False Space 0 # lits ''endfor'' @
     Rep True False Space 0 # lits ''%}'' @ []) (''{% if '' @ s) = None"
  by (simp add: lits_def rx_match_Rep is_space_def)

lemma endfor_miss_endif:
  "rx_match (lits ''{%'' @ Rep True False Space 0 # lits ''endfor'' @
     Rep True False Space 0 # lits ''%}'' @ []) (''{% endif %}'' @ s) = None"
  by (simp add: lits_def rx_match_Rep is_space_def)

lemma endfor_miss_for:
  "rx_match (lits ''{%'' @ Rep True False Space 0 # lits ''endfor'' @
     Rep True False Space 0 # lits ''%}'' @ []) (''{% for '' @ s) = None"
  by (simp add: lits_def rx_match_Rep is_space_def)

lemma endif_miss_if:
  "rx_match (lits ''{%'' @ Rep True False Space 0 # lits ''endif'' @
     Rep True False Space 0 # lits ''%}'' @ []) (''{% if '' @ s) = None"
  by (simp add: lits_def rx_match_Rep is_space_def)

subsection \<open>A conditional inside a loop\<close>

lemma for_match_if_block:
  assumes "is_name v" "is_name l" "CHR ''{'' \<notin> set c" "CHR ''{'' \<notin> set X"
  shows "rx_match for_pattern
           (''{% for '' @ v @ '' in '' @ l @ '' %}'' @
            (''{% if '' @ c @ '' %}'' @ X @ ''{% endif %}'') @ ''{% endfor %}'' @ post)
         = Some ([v, l, ''{% if '' @ c @ '' %}'' @ X @ ''{% endif %}''], post)"
proof -
  let ?K = "lits ''{%'' @ Rep True False Space 0 # lits ''endfor'' @
     Rep True False Space 0 # lits ''%}'' @ []"
  obtain q where K: "?K = Lit CHR ''{'' # q" by (simp add: lits_def)
  have e: "rx_match (Lit CHR ''{'' # q) (''{% endfor %}'' @ post) = Some ([], post)"
    using endfor_match[of post, unfolded K] by simp
  have m1: "rx_match (Lit CHR ''{'' # q) (CHR ''{'' # ''% endif %}'' @ ''{% endfor %}'' @ post) = None"
    using endfor_miss_endif[of "''{% endfor %}'' @ post", unfolded K] by simp
  have m2: "rx_match (Lit CHR ''{'' # q)
      (CHR ''{'' # (''% if '' @ c @ '' %}'' @ X) @ ''{% endif %}'' @ ''{% endfor %}'' @ post) = None"
    using endfor_miss_if[of "c @ '' %}'' @ X @ ''{% endif %}'' @ ''{% endfor %}'' @ post", unfolded K]
    by simp
  have s0: "rx_match (Rep False True DotAll 0 # Lit CHR ''{'' # q) (''{% endfor %}'' @ post)
      = Some ([[]], post)"
    by (rule rx_lazy_here[OF e])
  have s1: "rx_match (Rep False True DotAll 0 # Lit CHR ''{'' # q)
      (CHR ''{'' # ''% endif %}'' @ ''{% endfor %}'' @ post) = Some ([CHR ''{'' # ''% endif %}'' @ []], post)"
    by (rule rx_lazy_miss_skip[OF m1 _ s0]) simp
  then have s1': "rx_match (Rep False True DotAll 0 # Lit CHR ''{'' # q)
      (''{% endif %}'' @ ''{% endfor %}'' @ post) = Some ([''{% endif %}''], post)"
    by simp
  have s2: "rx_match (Rep False True DotAll 0 # Lit CHR ''{'' # q)
      (CHR ''{'' # (''% if '' @ c @ '' %}'' @ X) @ ''{% endif %}'' @ ''{% endfor %}'' @ post)
      = Some ([CHR ''{'' # (''% if '' @ c @ '' %}'' @ X) @ ''{% endif %}''], post)"
    using rx_lazy_miss_skip[OF m2 _ s1'] assms(3,4) by simp
  have "rx_match (Rep False True DotAll 0 # ?K)
      ((''{% if '' @ c @ '' %}'' @ X @ ''{% endif %}'') @ ''{% endfor %}'' @ post)
      = Some ([''{% if '' @ c @ '' %}'' @ X @ ''{% endif %}''], post)"
    using s2 unfolding K by simp
  from for_match_body[OF assms(1,2) this] show ?thesis .
qed

lemma replace_for_value:
  assumes "\<not> has_pair CHR ''{'' CHR ''{'' body"
  shows "replace_for ctx [v, l, body] =
     Inr (case map_of ctx l of Some (PList items) \<Rightarrow> concat (map (\<lambda>item. body) items) | _ \<Rightarrow> [])"
proof -
  have "loop_item v body = (\<lambda>item. body)" using assms by (intro ext loop_item_no_pair)
  then show ?thesis
    by (simp add: replace_for_def subscript_def split: option.splits pyval.splits)
qed

lemma if_stage_copies:
  assumes "is_name c" "CHR ''{'' \<notin> set X" "CHR ''{'' \<notin> set post"
  shows "re_sub if_pattern (replace_if ctx)
           (concat (map (\<lambda>item. ''{% if '' @ c @ '' %}'' @ X @ ''{% endif %}'') items) @ post)
       = Inr (concat (map (\<lambda>item. case map_of ctx c of None \<Rightarrow> []
                                   | Some w \<Rightarrow> if py_truthy w then X else []) items) @ post)"
proof (induction items)
  case Nil
  obtain q where q: "if_pattern = Lit CHR ''{'' # q" using if_pattern_Lit by blast
  show ?case using assms(3) by (simp add: q re_sub_plain)
next
  case (Cons item items)
  let ?rest = "concat (map (\<lambda>item. ''{% if '' @ c @ '' %}'' @ X @ ''{% endif %}'') items) @ post"
  have m: "rx_match if_pattern (''{% if '' @ c @ '' %}'' @ X @ ''{% endif %}'' @ ?rest)
      = Some ([c, X], ?rest)"
    by (rule if_match[OF assms(1,2)])
  have "re_sub if_pattern (replace_if ctx) (''{% if '' @ c @ '' %}'' @ X @ ''{% endif %}'' @ ?rest)
      = Inr ((case map_of ctx c of None \<Rightarrow> [] | Some w \<Rightarrow> if py_truthy w then X else []) @
          concat (map (\<lambda>item. case map_of ctx c of None \<Rightarrow> []
                                   | Some w \<Rightarrow> if py_truthy w then X else []) items) @ post)"
    by (rule re_sub_hit[where f = "replace_if ctx", OF m replace_if_value _ Cons.IH]) simp
  then show ?case by simp
qed

lemma render_if_in_for:
  assumes "is_name v" "is_name l" "is_name c"
    and "CHR ''{'' \<notin> set pre" "CHR ''{'' \<notin> set X" "CHR ''{'' \<notin> set post"
  shows "render (pre @ ''{% for '' @ v @ '' in '' @ l @ '' %}'' @
                 ''{% if '' @ c @ '' %}'' @ X @ ''{% endif %}'' @ ''{% endfor %}'' @ post) ctx
       = Inr (pre @
              (case map_of ctx l of
                 Some (PList items) \<Rightarrow>
                   concat (map (\<lambda>item. case map_of ctx c of None \<Rightarrow> []
                                         | Some w \<Rightarrow> if py_truthy w then X else []) items)
               | _ \<Rightarrow> []) @ post)"
proof -
  let ?IFB = "''{% if '' @ c @ '' %}'' @ X @ ''{% endif %}''"
  let ?T = "pre @ ''{% for '' @ v @ '' in '' @ l @ '' %}'' @ ?IFB @ ''{% endfor %}'' @ post"
  let ?Y = "case map_of ctx c of None \<Rightarrow> [] | Some w \<Rightarrow> if py_truthy w then X else []"
  have nv: "CHR ''{'' \<notin> set v" and nl: "CHR ''{'' \<notin> set l" and nc: "CHR ''{'' \<notin> set c"
    using assms(1,2,3) by (simp_all add: name_no_brace)
  obtain q where q: "for_pattern = Lit CHR ''{'' # q" using for_pattern_Lit by blast
  obtain q' where q': "if_pattern = Lit CHR ''{'' # q'" using if_pattern_Lit by blast
  have "\<not> has_pair CHR ''{'' CHR ''{'' ?T" using assms(4,5,6) nv nl nc by simp
  then have 1: "substitute_variables ctx ?T = ?T" by (rule substitute_no_pair)
  have np: "\<not> has_pair CHR ''{'' CHR ''{'' ?IFB" using assms(5) nc by simp
  let ?R = "case map_of ctx l of Some (PList items) \<Rightarrow> concat (map (\<lambda>item. ?IFB) items) | _ \<Rightarrow> []"
  let ?R' = "case map_of ctx l of Some (PList items) \<Rightarrow> concat (map (\<lambda>item. ?Y) items) | _ \<Rightarrow> []"
  have m: "rx_match for_pattern (''{% for '' @ v @ '' in '' @ l @ '' %}'' @ ?IFB @ ''{% endfor %}'' @ post)
      = Some ([v, l, ?IFB], post)"
    by (rule for_match_if_block[OF assms(1,2) nc assms(5)])
  have p: "re_sub for_pattern (replace_for ctx) post = Inr post"
    using assms(6) by (simp add: q re_sub_plain)
  have "re_sub for_pattern (replace_for ctx)
      (''{% for '' @ v @ '' in '' @ l @ '' %}'' @ ?IFB @ ''{% endfor %}'' @ post) = Inr (?R @ post)"
    by (rule re_sub_hit[where f = "replace_for ctx", OF m replace_for_value[OF np] _ p]) simp
  then have 2: "re_sub for_pattern (replace_for ctx) ?T = Inr (pre @ ?R @ post)"
    using re_sub_skip[of "CHR ''{''" pre q "replace_for ctx"] assms(4) by (simp add: q)
  have "re_sub if_pattern (replace_if ctx) (?R @ post) = Inr (?R' @ post)"
  proof (cases "\<exists>items. map_of ctx l = Some (PList items)")
    case True
    then obtain items where "map_of ctx l = Some (PList items)" by blast
    then show ?thesis using if_stage_copies[OF assms(3,5,6), of ctx items] by simp
  next
    case False
    then have "?R = []" "?R' = []" by (auto split: option.splits pyval.splits)
    then show ?thesis using assms(6) by (simp add: q' re_sub_plain)
  qed
  then have 3: "re_sub if_pattern (replace_if ctx) (pre @ ?R @ post) = Inr (pre @ ?R' @ post)"
    using re_sub_skip[of "CHR ''{''" pre q' "replace_if ctx"] assms(4) by (simp add: q')
  have "CHR ''{'' \<notin> set (pre @ ?R' @ post)"
    using assms(4,5,6) by (auto split: option.splits pyval.splits if_splits)
  then have 4: "cleanup (pre @ ?R' @ post) = Inr (pre @ ?R' @ post)" by (rule cleanup_plain)
  show ?thesis unfolding render_def using 1 2 3 4 by simp
qed

subsection \<open>A tag that the cleanup removes\<close>

lemma tag_pattern_alt:
  "tag_pattern = lits ''{%'' @ Rep False False Dot 0 # Lit CHR ''%'' # Lit CHR ''}'' # []"
  by (simp add: tag_pattern_def lits_def)

lemma tag_match:
  assumes "CHR ''%'' \<notin> set a" "list_all (in_cls Dot) a"
  shows "rx_match tag_pattern (''{%'' @ a @ ''%}'' @ rest) = Some ([], rest)"
proof -
  have "rx_match (lits ''{%'' @ Rep False False Dot 0 # Lit CHR ''%'' # Lit CHR ''}'' # [])
      (''{%'' @ a @ ''%}'' @ rest) = Some ([], rest)"
    apply (rule rx_match_lits)
    apply (rule rx_match_lazy)
      apply (rule assms(1))
     apply (rule assms(2))
    apply simp
    done
  then show ?thesis by (simp only: tag_pattern_alt)
qed

lemma name_tag: "is_name n \<Longrightarrow> CHR ''%'' \<notin> set n \<and> list_all (in_cls Dot) n"
  by (auto simp: is_name_def list_all_iff is_word_def)

lemma tag_hit:
  assumes "CHR ''%'' \<notin> set a" "list_all (in_cls Dot) a" "re_sub tag_pattern (\<lambda>_. Inr []) rest = Inr r"
  shows "re_sub tag_pattern (\<lambda>_. Inr []) (''{%'' @ a @ ''%}'' @ rest) = Inr r"
  using re_sub_hit[where f = "\<lambda>_. Inr []", OF tag_match[OF assms(1,2)] _ _ assms(3), of "[]"]
  by simp

lemma tag_for_open:
  assumes "is_name v" "is_name l" "re_sub tag_pattern (\<lambda>_. Inr []) rest = Inr r"
  shows "re_sub tag_pattern (\<lambda>_. Inr []) (''{% for '' @ v @ '' in '' @ l @ '' %}'' @ rest) = Inr r"
  using tag_hit[of "'' for '' @ v @ '' in '' @ l @ '' ''" rest r] name_tag[OF assms(1)]
    name_tag[OF assms(2)] assms(3)
  by simp

lemma tag_if_open:
  assumes "is_name c" "re_sub tag_pattern (\<lambda>_. Inr []) rest = Inr r"
  shows "re_sub tag_pattern (\<lambda>_. Inr []) (''{% if '' @ c @ '' %}'' @ rest) = Inr r"
  using tag_hit[of "'' if '' @ c @ '' ''" rest r] name_tag[OF assms(1)] assms(2)
  by simp

lemma tag_endfor:
  assumes "re_sub tag_pattern (\<lambda>_. Inr []) rest = Inr r"
  shows "re_sub tag_pattern (\<lambda>_. Inr []) (''{% endfor %}'' @ rest) = Inr r"
  using tag_hit[of "'' endfor ''" rest r] assms by simp

lemma tag_endif:
  assumes "re_sub tag_pattern (\<lambda>_. Inr []) rest = Inr r"
  shows "re_sub tag_pattern (\<lambda>_. Inr []) (''{% endif %}'' @ rest) = Inr r"
  using tag_hit[of "'' endif ''" rest r] assms by simp

lemma tag_skip:
  assumes "CHR ''{'' \<notin> set a" "re_sub tag_pattern (\<lambda>_. Inr []) rest = Inr r"
  shows "re_sub tag_pattern (\<lambda>_. Inr []) (a @ rest) = Inr (a @ r)"
proof -
  obtain q where q: "tag_pattern = Lit CHR ''{'' # q" using tag_pattern_Lit by blast
  show ?thesis using re_sub_skip[of "CHR ''{''" a q _ rest r] assms by (simp add: q)
qed

lemma tag_plain: "CHR ''{'' \<notin> set a \<Longrightarrow> re_sub tag_pattern (\<lambda>_. Inr []) a = Inr a"
  using tag_pattern_Lit re_sub_plain by metis

lemma cleanup_from_tags:
  assumes "re_sub tag_pattern (\<lambda>_. Inr []) s = Inr r" "CHR ''{'' \<notin> set r"
  shows "cleanup s = Inr r"
proof -
  obtain q where q: "var_pattern = Lit CHR ''{'' # q" using var_pattern_Lit by blast
  show ?thesis using assms by (simp add: cleanup_def q re_sub_plain)
qed

subsection \<open>A loop inside a loop\<close>

lemma for_match_for_body:
  assumes "is_name v" "is_name l" "CHR ''{'' \<notin> set v2" "CHR ''{'' \<notin> set l2" "CHR ''{'' \<notin> set X"
  shows "rx_match for_pattern
           (''{% for '' @ v @ '' in '' @ l @ '' %}'' @
            (''{% for '' @ v2 @ '' in '' @ l2 @ '' %}'' @ X) @ ''{% endfor %}'' @ rest)
         = Some ([v, l, ''{% for '' @ v2 @ '' in '' @ l2 @ '' %}'' @ X], rest)"
proof -
  let ?K = "lits ''{%'' @ Rep True False Space 0 # lits ''endfor'' @
     Rep True False Space 0 # lits ''%}'' @ []"
  obtain q where K: "?K = Lit CHR ''{'' # q" by (simp add: lits_def)
  have e: "rx_match (Lit CHR ''{'' # q) (''{% endfor %}'' @ rest) = Some ([], rest)"
    using endfor_match[of rest, unfolded K] by simp
  have m: "rx_match (Lit CHR ''{'' # q)
      (CHR ''{'' # (''% for '' @ v2 @ '' in '' @ l2 @ '' %}'' @ X) @ ''{% endfor %}'' @ rest) = None"
    using endfor_miss_for[of "v2 @ '' in '' @ l2 @ '' %}'' @ X @ ''{% endfor %}'' @ rest", unfolded K]
    by simp
  have s0: "rx_match (Rep False True DotAll 0 # Lit CHR ''{'' # q) (''{% endfor %}'' @ rest)
      = Some ([[]], rest)"
    by (rule rx_lazy_here[OF e])
  have s1: "rx_match (Rep False True DotAll 0 # Lit CHR ''{'' # q)
      (CHR ''{'' # (''% for '' @ v2 @ '' in '' @ l2 @ '' %}'' @ X) @ ''{% endfor %}'' @ rest)
      = Some ([CHR ''{'' # (''% for '' @ v2 @ '' in '' @ l2 @ '' %}'' @ X) @ []], rest)"
    using rx_lazy_miss_skip[OF m _ s0] assms(3,4,5) by simp
  have "rx_match (Rep False True DotAll 0 # ?K)
      ((''{% for '' @ v2 @ '' in '' @ l2 @ '' %}'' @ X) @ ''{% endfor %}'' @ rest)
      = Some ([''{% for '' @ v2 @ '' in '' @ l2 @ '' %}'' @ X], rest)"
    using s1 unfolding K by simp
  from for_match_body[OF assms(1,2) this] show ?thesis .
qed

lemma stage_skip:
  assumes "p = Lit CHR ''{'' # q" "CHR ''{'' \<notin> set a" "re_sub p f b = Inr r"
  shows "re_sub p f (a @ b) = Inr (a @ r)"
  using re_sub_skip[of "CHR ''{''" a q f b r] assms by simp

lemma stage_miss:
  assumes "p = Lit CHR ''{'' # q" "rx_match p (CHR ''{'' # a @ b) = None" "CHR ''{'' \<notin> set a"
    "re_sub p f b = Inr r"
  shows "re_sub p f (CHR ''{'' # a @ b) = Inr (CHR ''{'' # a @ r)"
  using re_sub_miss_skip[of "CHR ''{''" q a b f r] assms by simp

lemma for_stage_endfor:
  assumes "CHR ''{'' \<notin> set post"
  shows "re_sub for_pattern f (''{% endfor %}'' @ post) = Inr (''{% endfor %}'' @ post)"
proof -
  obtain q where q: "for_pattern = Lit CHR ''{'' # q" using for_pattern_Lit by blast
  have "re_sub for_pattern f (CHR ''{'' # (''% endfor %}'' @ post) @ [])
      = Inr (CHR ''{'' # (''% endfor %}'' @ post) @ [])"
    by (rule stage_miss[OF q]) (use for_miss_endfor[of post] assms in \<open>simp_all add: q re_sub_Nil\<close>)
  then show ?thesis by simp
qed

lemma if_stage_endfor:
  assumes "CHR ''{'' \<notin> set post"
  shows "re_sub if_pattern f (''{% endfor %}'' @ post) = Inr (''{% endfor %}'' @ post)"
proof -
  obtain q where q: "if_pattern = Lit CHR ''{'' # q" using if_pattern_Lit by blast
  have "re_sub if_pattern f (CHR ''{'' # (''% endfor %}'' @ post) @ [])
      = Inr (CHR ''{'' # (''% endfor %}'' @ post) @ [])"
    by (rule stage_miss[OF q]) (use if_miss_endfor[of post] assms in \<open>simp_all add: q re_sub_Nil\<close>)
  then show ?thesis by simp
qed

lemma if_stage_for_copies:
  assumes "CHR ''{'' \<notin> set v2" "CHR ''{'' \<notin> set l2" "CHR ''{'' \<notin> set X"
    and "re_sub if_pattern f Z = Inr Z"
  shows "re_sub if_pattern f
           (concat (map (\<lambda>item. ''{% for '' @ v2 @ '' in '' @ l2 @ '' %}'' @ X) items) @ Z)
       = Inr (concat (map (\<lambda>item. ''{% for '' @ v2 @ '' in '' @ l2 @ '' %}'' @ X) items) @ Z)"
proof (induction items)
  case Nil
  show ?case using assms(4) by simp
next
  case (Cons item items)
  obtain q where q: "if_pattern = Lit CHR ''{'' # q" using if_pattern_Lit by blast
  let ?rest = "concat (map (\<lambda>item. ''{% for '' @ v2 @ '' in '' @ l2 @ '' %}'' @ X) items) @ Z"
  have "re_sub if_pattern f (CHR ''{'' # (''% for '' @ v2 @ '' in '' @ l2 @ '' %}'' @ X) @ ?rest)
      = Inr (CHR ''{'' # (''% for '' @ v2 @ '' in '' @ l2 @ '' %}'' @ X) @ ?rest)"
    by (rule stage_miss[OF q _ _ Cons.IH])
       (use if_miss_for[of "v2 @ '' in '' @ l2 @ '' %}'' @ X @ ?rest"] assms(1,2,3) in simp_all)
  then show ?case by simp
qed

lemma tag_stage_for_copies:
  assumes "is_name v2" "is_name l2" "CHR ''{'' \<notin> set X"
    and "re_sub tag_pattern (\<lambda>_. Inr []) Z = Inr Z'"
  shows "re_sub tag_pattern (\<lambda>_. Inr [])
           (concat (map (\<lambda>item. ''{% for '' @ v2 @ '' in '' @ l2 @ '' %}'' @ X) items) @ Z)
       = Inr (concat (map (\<lambda>item. X) items) @ Z')"
proof (induction items)
  case Nil
  show ?case using assms(4) by simp
next
  case (Cons item items)
  let ?rest = "concat (map (\<lambda>item. ''{% for '' @ v2 @ '' in '' @ l2 @ '' %}'' @ X) items) @ Z"
  have "re_sub tag_pattern (\<lambda>_. Inr []) (''{% for '' @ v2 @ '' in '' @ l2 @ '' %}'' @ X @ ?rest)
      = Inr (X @ concat (map (\<lambda>item. X) items) @ Z')"
    by (rule tag_for_open[OF assms(1,2)], rule tag_skip[OF assms(3)], rule Cons.IH)
  then show ?case by simp
qed

lemma render_for_in_for:
  assumes "is_name v" "is_name l" "is_name v2" "is_name l2"
    and "CHR ''{'' \<notin> set pre" "CHR ''{'' \<notin> set X" "CHR ''{'' \<notin> set Y" "CHR ''{'' \<notin> set post"
  shows "render (pre @ ''{% for '' @ v @ '' in '' @ l @ '' %}'' @
                 ''{% for '' @ v2 @ '' in '' @ l2 @ '' %}'' @ X @ ''{% endfor %}'' @
                 Y @ ''{% endfor %}'' @ post) ctx
       = Inr (pre @
              (case map_of ctx l of
                 Some (PList items) \<Rightarrow> concat (map (\<lambda>item. X) items)
               | _ \<Rightarrow> []) @ Y @ post)"
proof -
  let ?IN = "''{% for '' @ v2 @ '' in '' @ l2 @ '' %}'' @ X"
  let ?Z = "Y @ ''{% endfor %}'' @ post"
  let ?T = "pre @ ''{% for '' @ v @ '' in '' @ l @ '' %}'' @ ?IN @ ''{% endfor %}'' @ ?Z"
  have nv: "CHR ''{'' \<notin> set v" and nl: "CHR ''{'' \<notin> set l"
    and nv2: "CHR ''{'' \<notin> set v2" and nl2: "CHR ''{'' \<notin> set l2"
    using assms(1,2,3,4) by (simp_all add: name_no_brace)
  obtain q where q: "for_pattern = Lit CHR ''{'' # q" using for_pattern_Lit by blast
  obtain q' where q': "if_pattern = Lit CHR ''{'' # q'" using if_pattern_Lit by blast
  have "\<not> has_pair CHR ''{'' CHR ''{'' ?T" using assms(5,6,7,8) nv nl nv2 nl2 by simp
  then have 1: "substitute_variables ctx ?T = ?T" by (rule substitute_no_pair)
  have np: "\<not> has_pair CHR ''{'' CHR ''{'' ?IN" using assms(6) nv2 nl2 by simp
  let ?R = "case map_of ctx l of Some (PList items) \<Rightarrow> concat (map (\<lambda>item. ?IN) items) | _ \<Rightarrow> []"
  let ?R' = "case map_of ctx l of Some (PList items) \<Rightarrow> concat (map (\<lambda>item. X) items) | _ \<Rightarrow> []"
  have m: "rx_match for_pattern (''{% for '' @ v @ '' in '' @ l @ '' %}'' @ ?IN @ ''{% endfor %}'' @ ?Z)
      = Some ([v, l, ?IN], ?Z)"
    by (rule for_match_for_body[OF assms(1,2) nv2 nl2 assms(6)])
  have p: "re_sub for_pattern (replace_for ctx) ?Z = Inr ?Z"
    by (rule stage_skip[OF q assms(7)], rule for_stage_endfor[OF assms(8)])
  have "re_sub for_pattern (replace_for ctx)
      (''{% for '' @ v @ '' in '' @ l @ '' %}'' @ ?IN @ ''{% endfor %}'' @ ?Z) = Inr (?R @ ?Z)"
    by (rule re_sub_hit[where f = "replace_for ctx", OF m replace_for_value[OF np] _ p]) simp
  then have 2: "re_sub for_pattern (replace_for ctx) ?T = Inr (pre @ ?R @ ?Z)"
    using stage_skip[OF q assms(5), of "replace_for ctx"] by simp
  have z: "re_sub if_pattern (replace_if ctx) ?Z = Inr ?Z"
    by (rule stage_skip[OF q' assms(7)], rule if_stage_endfor[OF assms(8)])
  have "re_sub if_pattern (replace_if ctx) (?R @ ?Z) = Inr (?R @ ?Z)"
  proof (cases "\<exists>items. map_of ctx l = Some (PList items)")
    case True
    then obtain items where "map_of ctx l = Some (PList items)" by blast
    then show ?thesis using if_stage_for_copies[OF nv2 nl2 assms(6) z, of items] by simp
  next
    case False
    then have "?R = []" by (auto split: option.splits pyval.splits)
    then show ?thesis using z by simp
  qed
  then have 3: "re_sub if_pattern (replace_if ctx) (pre @ ?R @ ?Z) = Inr (pre @ ?R @ ?Z)"
    using stage_skip[OF q' assms(5), of "replace_if ctx"] by simp
  have tz: "re_sub tag_pattern (\<lambda>_. Inr []) ?Z = Inr (Y @ post)"
    by (rule tag_skip[OF assms(7)], rule tag_endfor, rule tag_plain[OF assms(8)])
  have "re_sub tag_pattern (\<lambda>_. Inr []) (?R @ ?Z) = Inr (?R' @ Y @ post)"
  proof (cases "\<exists>items. map_of ctx l = Some (PList items)")
    case True
    then obtain items where "map_of ctx l = Some (PList items)" by blast
    then show ?thesis using tag_stage_for_copies[OF assms(3,4,6) tz, of items] by simp
  next
    case False
    then have "?R = []" "?R' = []" by (auto split: option.splits pyval.splits)
    then show ?thesis using tz by simp
  qed
  then have "re_sub tag_pattern (\<lambda>_. Inr []) (pre @ ?R @ ?Z) = Inr (pre @ ?R' @ Y @ post)"
    by (rule tag_skip[OF assms(5)])
  moreover have "CHR ''{'' \<notin> set (pre @ ?R' @ Y @ post)"
    using assms(5,6,7,8) by (auto split: option.splits pyval.splits)
  ultimately have 4: "cleanup (pre @ ?R @ ?Z) = Inr (pre @ ?R' @ Y @ post)"
    by (rule cleanup_from_tags)
  show ?thesis unfolding render_def using 1 2 3 4 by simp
qed

subsection \<open>A conditional inside a conditional\<close>

lemma if_match_body:
  assumes "is_name c"
    and "rx_match (Rep False True DotAll 0 # lits ''{%'' @ Rep True False Space 0 # lits ''endif'' @
       Rep True False Space 0 # lits ''%}'' @ []) s = Some ([body], post)"
  shows "rx_match if_pattern (''{% if '' @ c @ '' %}'' @ s) = Some ([c, body], post)"
proof -
  have "rx_match (lits ''{%'' @ Rep True False Space 0 # lits ''if'' @
     Rep True False Space 1 # Rep True True Word 1 # Rep True False Space 0 # lits ''%}'' @
     Rep False True DotAll 0 # lits ''{%'' @ Rep True False Space 0 # lits ''endif'' @
     Rep True False Space 0 # lits ''%}'' @ [])
     (''{%'' @ '' '' @ ''if'' @ '' '' @ c @ '' '' @ ''%}'' @ s) = Some ([c, body], post)"
    apply (rule rx_match_lits)
    apply (rule rx_match_greedy)
       apply (rule one_space)
      apply simp
     apply (simp add: is_space_def)
    apply (rule rx_match_lits)
    apply (rule rx_match_greedy)
       apply (rule one_space)
      apply simp
     apply (use assms(1) name_hd[OF assms(1)] in \<open>simp add: is_name_def\<close>)
    apply (rule rx_match_greedy_group)
       apply (rule name_word[OF assms(1)])
      apply (use assms(1) in \<open>simp add: is_name_def Suc_le_eq\<close>)
     apply (simp add: is_word_def)
    apply (rule rx_match_greedy)
       apply (rule one_space)
      apply simp
     apply (simp add: is_space_def)
    apply (rule rx_match_lits)
    apply (rule assms(2))
    done
  then show ?thesis by (simp add: if_pattern_alt)
qed

lemma if_match_if_body:
  assumes "is_name c" "CHR ''{'' \<notin> set c2" "CHR ''{'' \<notin> set X"
  shows "rx_match if_pattern
           (''{% if '' @ c @ '' %}'' @ (''{% if '' @ c2 @ '' %}'' @ X) @ ''{% endif %}'' @ rest)
         = Some ([c, ''{% if '' @ c2 @ '' %}'' @ X], rest)"
proof -
  let ?K = "lits ''{%'' @ Rep True False Space 0 # lits ''endif'' @
     Rep True False Space 0 # lits ''%}'' @ []"
  obtain q where K: "?K = Lit CHR ''{'' # q" by (simp add: lits_def)
  have e: "rx_match (Lit CHR ''{'' # q) (''{% endif %}'' @ rest) = Some ([], rest)"
    using endif_match[of rest, unfolded K] by simp
  have m: "rx_match (Lit CHR ''{'' # q)
      (CHR ''{'' # (''% if '' @ c2 @ '' %}'' @ X) @ ''{% endif %}'' @ rest) = None"
    using endif_miss_if[of "c2 @ '' %}'' @ X @ ''{% endif %}'' @ rest", unfolded K] by simp
  have s0: "rx_match (Rep False True DotAll 0 # Lit CHR ''{'' # q) (''{% endif %}'' @ rest)
      = Some ([[]], rest)"
    by (rule rx_lazy_here[OF e])
  have s1: "rx_match (Rep False True DotAll 0 # Lit CHR ''{'' # q)
      (CHR ''{'' # (''% if '' @ c2 @ '' %}'' @ X) @ ''{% endif %}'' @ rest)
      = Some ([CHR ''{'' # (''% if '' @ c2 @ '' %}'' @ X) @ []], rest)"
    using rx_lazy_miss_skip[OF m _ s0] assms(2,3) by simp
  have "rx_match (Rep False True DotAll 0 # ?K)
      ((''{% if '' @ c2 @ '' %}'' @ X) @ ''{% endif %}'' @ rest)
      = Some ([''{% if '' @ c2 @ '' %}'' @ X], rest)"
    using s1 unfolding K by simp
  from if_match_body[OF assms(1) this] show ?thesis .
qed

lemma for_stage_endif:
  assumes "re_sub for_pattern f b = Inr b"
  shows "re_sub for_pattern f (''{% endif %}'' @ b) = Inr (''{% endif %}'' @ b)"
proof -
  obtain q where q: "for_pattern = Lit CHR ''{'' # q" using for_pattern_Lit by blast
  have "re_sub for_pattern f (CHR ''{'' # ''% endif %}'' @ b) = Inr (CHR ''{'' # ''% endif %}'' @ b)"
    by (rule stage_miss[OF q _ _ assms]) (use for_miss_endif[of b] in simp_all)
  then show ?thesis by simp
qed

lemma for_stage_if_open:
  assumes "CHR ''{'' \<notin> set c" "CHR ''{'' \<notin> set X" "re_sub for_pattern f b = Inr b"
  shows "re_sub for_pattern f (''{% if '' @ c @ '' %}'' @ X @ b) = Inr (''{% if '' @ c @ '' %}'' @ X @ b)"
proof -
  obtain q where q: "for_pattern = Lit CHR ''{'' # q" using for_pattern_Lit by blast
  have "re_sub for_pattern f (CHR ''{'' # (''% if '' @ c @ '' %}'' @ X) @ b)
      = Inr (CHR ''{'' # (''% if '' @ c @ '' %}'' @ X) @ b)"
    by (rule stage_miss[OF q _ _ assms(3)])
       (use for_miss_if[of "c @ '' %}'' @ X @ b"] assms(1,2) in simp_all)
  then show ?thesis by simp
qed

lemma if_stage_endif:
  assumes "CHR ''{'' \<notin> set post"
  shows "re_sub if_pattern f (''{% endif %}'' @ post) = Inr (''{% endif %}'' @ post)"
proof -
  obtain q where q: "if_pattern = Lit CHR ''{'' # q" using if_pattern_Lit by blast
  have "re_sub if_pattern f (CHR ''{'' # (''% endif %}'' @ post) @ [])
      = Inr (CHR ''{'' # (''% endif %}'' @ post) @ [])"
    by (rule stage_miss[OF q]) (use if_miss_endif[of post] assms in \<open>simp_all add: q re_sub_Nil\<close>)
  then show ?thesis by simp
qed

lemma render_if_in_if:
  assumes "is_name c" "is_name c2"
    and "CHR ''{'' \<notin> set pre" "CHR ''{'' \<notin> set X" "CHR ''{'' \<notin> set Y" "CHR ''{'' \<notin> set post"
  shows "render (pre @ ''{% if '' @ c @ '' %}'' @ ''{% if '' @ c2 @ '' %}'' @ X @ ''{% endif %}'' @
                 Y @ ''{% endif %}'' @ post) ctx
       = Inr (pre @ (case map_of ctx c of None \<Rightarrow> [] | Some w \<Rightarrow> if py_truthy w then X else [])
              @ Y @ post)"
proof -
  let ?IN = "''{% if '' @ c2 @ '' %}'' @ X"
  let ?Z = "Y @ ''{% endif %}'' @ post"
  let ?T = "pre @ ''{% if '' @ c @ '' %}'' @ ?IN @ ''{% endif %}'' @ ?Z"
  let ?V = "case map_of ctx c of None \<Rightarrow> [] | Some w \<Rightarrow> if py_truthy w then ?IN else []"
  let ?V' = "case map_of ctx c of None \<Rightarrow> [] | Some w \<Rightarrow> if py_truthy w then X else []"
  have nc: "CHR ''{'' \<notin> set c" and nc2: "CHR ''{'' \<notin> set c2"
    using assms(1,2) by (simp_all add: name_no_brace)
  obtain q where q: "for_pattern = Lit CHR ''{'' # q" using for_pattern_Lit by blast
  obtain q' where q': "if_pattern = Lit CHR ''{'' # q'" using if_pattern_Lit by blast
  have "\<not> has_pair CHR ''{'' CHR ''{'' ?T" using assms(3,4,5,6) nc nc2 by simp
  then have 1: "substitute_variables ctx ?T = ?T" by (rule substitute_no_pair)
  have f4: "re_sub for_pattern (replace_for ctx) (''{% endif %}'' @ post) = Inr (''{% endif %}'' @ post)"
    by (rule for_stage_endif) (use assms(6) in \<open>simp add: q re_sub_plain\<close>)
  have f3: "re_sub for_pattern (replace_for ctx) (''{% endif %}'' @ ?Z) = Inr (''{% endif %}'' @ ?Z)"
    by (rule for_stage_endif, rule stage_skip[OF q assms(5) f4])
  have f2: "re_sub for_pattern (replace_for ctx) (''{% if '' @ c2 @ '' %}'' @ X @ ''{% endif %}'' @ ?Z)
      = Inr (''{% if '' @ c2 @ '' %}'' @ X @ ''{% endif %}'' @ ?Z)"
    by (rule for_stage_if_open[OF nc2 assms(4) f3])
  have f1: "re_sub for_pattern (replace_for ctx)
      (''{% if '' @ c @ '' %}'' @ [] @ ''{% if '' @ c2 @ '' %}'' @ X @ ''{% endif %}'' @ ?Z)
      = Inr (''{% if '' @ c @ '' %}'' @ [] @ ''{% if '' @ c2 @ '' %}'' @ X @ ''{% endif %}'' @ ?Z)"
    by (rule for_stage_if_open[OF nc _ f2]) simp
  have 2: "re_sub for_pattern (replace_for ctx) ?T = Inr ?T"
    using stage_skip[OF q assms(3) f1] by simp
  have m: "rx_match if_pattern (''{% if '' @ c @ '' %}'' @ ?IN @ ''{% endif %}'' @ ?Z)
      = Some ([c, ?IN], ?Z)"
    by (rule if_match_if_body[OF assms(1) nc2 assms(4)])
  have val: "replace_if ctx [c, ?IN] = Inr ?V" by (rule replace_if_value)
  have p: "re_sub if_pattern (replace_if ctx) ?Z = Inr ?Z"
    by (rule stage_skip[OF q' assms(5)], rule if_stage_endif[OF assms(6)])
  have "re_sub if_pattern (replace_if ctx) (''{% if '' @ c @ '' %}'' @ ?IN @ ''{% endif %}'' @ ?Z)
      = Inr (?V @ ?Z)"
    by (rule re_sub_hit[where f = "replace_if ctx", OF m val _ p]) simp
  then have 3: "re_sub if_pattern (replace_if ctx) ?T = Inr (pre @ ?V @ ?Z)"
    using stage_skip[OF q' assms(3), of "replace_if ctx"] by simp
  have tz: "re_sub tag_pattern (\<lambda>_. Inr []) ?Z = Inr (Y @ post)"
    by (rule tag_skip[OF assms(5)], rule tag_endif, rule tag_plain[OF assms(6)])
  have tin: "re_sub tag_pattern (\<lambda>_. Inr []) (?IN @ ?Z) = Inr (X @ Y @ post)"
    using tag_if_open[OF assms(2) tag_skip[OF assms(4) tz]] by simp
  have "re_sub tag_pattern (\<lambda>_. Inr []) (?V @ ?Z) = Inr (?V' @ Y @ post)"
    using tz tin by (auto split: option.splits)
  then have "re_sub tag_pattern (\<lambda>_. Inr []) (pre @ ?V @ ?Z) = Inr (pre @ ?V' @ Y @ post)"
    by (rule tag_skip[OF assms(3)])
  moreover have "CHR ''{'' \<notin> set (pre @ ?V' @ Y @ post)"
    using assms(3,4,5,6) by (auto split: option.splits)
  ultimately have 4: "cleanup (pre @ ?V @ ?Z) = Inr (pre @ ?V' @ Y @ post)"
    by (rule cleanup_from_tags)
  show ?thesis unfolding render_def using 1 2 3 4 by simp
qed

subsection \<open>What happens to a nested block\<close>




end
